theory Spec2Isabelle
  imports Main
begin

section \<open>Python strings\<close>

text \<open>
  A Python \<^verbatim>\<open>str\<close> is a sequence of Unicode code points; a code point is a natural
  number.  Literals of the source are ASCII and are written \<open>asc ''...''\<close>.
\<close>

type_synonym pystr = "nat list"

abbreviation asc :: "string \<Rightarrow> pystr" where
  "asc s \<equiv> map of_char s"

text \<open>\<^verbatim>\<open>str.isspace\<close> on one character: the white space that \<^verbatim>\<open>str.strip()\<close> removes.\<close>

definition is_space :: "nat \<Rightarrow> bool" where
  "is_space c \<longleftrightarrow>
     (9 \<le> c \<and> c \<le> 13) \<or> (28 \<le> c \<and> c \<le> 32) \<or> c = 133 \<or> c = 160 \<or> c = 5760 \<or>
     (8192 \<le> c \<and> c \<le> 8202) \<or> c = 8232 \<or> c = 8233 \<or> c = 8239 \<or> c = 8287 \<or> c = 12288"

definition strip :: "pystr \<Rightarrow> pystr" where
  "strip s = rev (dropWhile is_space (rev (dropWhile is_space s)))"

text \<open>\<^verbatim>\<open>sep.join(parts)\<close>\<close>

fun join :: "pystr \<Rightarrow> pystr list \<Rightarrow> pystr" where
  "join sep [] = []"
| "join sep [x] = x"
| "join sep (x # y # ys) = x @ sep @ join sep (y # ys)"

text \<open>\<^verbatim>\<open>str(n)\<close> for an integer.\<close>

function str_nat :: "nat \<Rightarrow> pystr" where
  "str_nat n = (if n < 10 then [48 + n] else str_nat (n div 10) @ [48 + n mod 10])"
  by pat_completeness auto
termination
  by (relation "measure (\<lambda>n. n)") auto

declare str_nat.simps [simp del]

definition str_int :: "int \<Rightarrow> pystr" where
  "str_int i = (if i < 0 then 45 # str_nat (nat (- i)) else str_nat (nat i))"

section \<open>The parsed document\<close>

text \<open>
  The document tree that the HTML parser hands to the scraper: a text node, or an element
  with its tag name, the tokens of its \<^verbatim>\<open>class\<close> attribute (\<open>None\<close> when the attribute
  is absent; the parser keeps this attribute as a list of tokens), its other attributes
  and its children in document order.
\<close>

datatype node =
    Text pystr
  | Elem pystr "pystr list option" "(pystr \<times> pystr) list" "node list"

text \<open>All nodes below a node, in document order.\<close>

fun descendants :: "node \<Rightarrow> node list" where
  "descendants (Text s) = []"
| "descendants (Elem n cls attrs kids) = concat (map (\<lambda>k. k # descendants k) kids)"

text \<open>\<^verbatim>\<open>tag.get_text()\<close>: the text nodes below the tag, concatenated.\<close>

fun get_text :: "node \<Rightarrow> pystr" where
  "get_text (Text s) = s"
| "get_text (Elem n cls attrs kids) = concat (map get_text kids)"

text \<open>\<^verbatim>\<open>tag.get(key)\<close> for a single-valued attribute.\<close>

fun attr_get :: "node \<Rightarrow> pystr \<Rightarrow> pystr option" where
  "attr_get (Text s) key = None"
| "attr_get (Elem n cls attrs kids) key = map_of attrs key"

text \<open>
  One entry \<open>(key, wanted)\<close> of the attribute dictionary given to \<^verbatim>\<open>find\<close> and
  \<^verbatim>\<open>find_all\<close>.  An absent attribute matches only the empty string.  The \<^verbatim>\<open>class\<close>
  attribute matches when one of its tokens is the wanted string, or when the tokens joined
  by single blanks are.
\<close>

fun attr_matches :: "node \<Rightarrow> pystr \<times> pystr \<Rightarrow> bool" where
  "attr_matches (Text s) (key, wanted) = False"
| "attr_matches (Elem n cls attrs kids) (key, wanted) =
     (if key = asc ''class''
      then (case cls of
              None \<Rightarrow> wanted = []
            | Some toks \<Rightarrow> wanted \<in> set toks \<or> join (asc '' '') toks = wanted)
      else (case map_of attrs key of
              None \<Rightarrow> wanted = []
            | Some v \<Rightarrow> v = wanted))"

fun tag_matches :: "pystr \<Rightarrow> (pystr \<times> pystr) list \<Rightarrow> node \<Rightarrow> bool" where
  "tag_matches name wanted (Text s) = False"
| "tag_matches name wanted (Elem n cls attrs kids) =
     (n = name \<and> list_all (attr_matches (Elem n cls attrs kids)) wanted)"

definition find_all :: "node \<Rightarrow> pystr \<Rightarrow> (pystr \<times> pystr) list \<Rightarrow> node list" where
  "find_all t name wanted = filter (tag_matches name wanted) (descendants t)"

text \<open>\<^verbatim>\<open>tag.find(name, attrs)\<close>: the first match in document order, or \<^verbatim>\<open>None\<close>.\<close>

definition find_tag :: "node \<Rightarrow> pystr \<Rightarrow> (pystr \<times> pystr) list \<Rightarrow> node option" where
  "find_tag t name wanted = List.find (tag_matches name wanted) (descendants t)"

section \<open>Text of a tag and the label/value lookup\<close>

datatype error =
    AttributeError | ValueError | IndexError | RequestException | URLError | UnicodeEncodeError

text \<open>
  \<^verbatim>\<open>__get_tag_data\<close>: a tag object is always truthy, so the test \<^verbatim>\<open>if tag\<close> only
  separates a tag from \<^verbatim>\<open>None\<close>.
\<close>

definition get_tag_data :: "node option \<Rightarrow> pystr" where
  "get_tag_data tag = (case tag of Some t \<Rightarrow> strip (get_text t) | None \<Rightarrow> [])"

text \<open>\<^verbatim>\<open>__get_div_param\<close>: the \<^verbatim>\<open>for\<close> loop with its early \<^verbatim>\<open>return\<close>.\<close>

fun get_div_param :: "node list \<Rightarrow> pystr \<Rightarrow> pystr \<Rightarrow> pystr \<Rightarrow> pystr" where
  "get_div_param [] param_name param_class value_class = []"
| "get_div_param (tag # tags) param_name param_class value_class =
     (if get_tag_data (find_tag tag (asc ''div'') [(asc ''class'', param_class)]) = param_name
      then get_tag_data (find_tag tag (asc ''div'') [(asc ''class'', value_class)])
      else get_div_param tags param_name param_class value_class)"

section \<open>Numeric normalisation\<close>

text \<open>
  A decimal digit of Python is a character of Unicode category Nd; the regular expression
  class \<^verbatim>\<open>\d\<close> and \<^verbatim>\<open>int()\<close> agree on it.  The digits come in runs of ten, listed here
  by their zero (the table of Unicode 14).
\<close>

definition decimal_bases :: "nat list" where
  "decimal_bases =
    [48, 1632, 1776, 1984, 2406, 2534, 2662, 2790, 2918, 3046, 3174, 3302, 3430, 3558,
     3664, 3792, 3872, 4160, 4240, 6112, 6160, 6470, 6608, 6784, 6800, 6992, 7088, 7232,
     7248, 42528, 43216, 43264, 43472, 43504, 43600, 44016, 65296, 66720, 68912, 69734,
     69872, 69942, 70096, 70384, 70736, 70864, 71248, 71360, 71472, 71904, 72016, 72784,
     73040, 73120, 92768, 92864, 93008, 120782, 120792, 120802, 120812, 120822, 123200,
     123632, 125264, 130032]"

definition decimal_value :: "nat \<Rightarrow> nat option" where
  "decimal_value c =
     (case List.find (\<lambda>b. b \<le> c \<and> c < b + 10) decimal_bases of
        Some b \<Rightarrow> Some (c - b)
      | None \<Rightarrow> None)"

definition is_digit :: "nat \<Rightarrow> bool" where
  "is_digit c \<longleftrightarrow> decimal_value c \<noteq> None"

text \<open>
  \<^verbatim>\<open>re.search(r"\d+.{0,1}\d*", text)\<close>, giving \<^verbatim>\<open>group(0)\<close> of the match.  A match
  starts at the first digit of the text.  Every quantifier is greedy and all that follows
  \<^verbatim>\<open>\d+\<close> may match the empty string, so the match is the whole digit run, then one more
  character of any kind unless the text ends or a line feed follows (the dot is not
  escaped and matches everything but a line feed), then the digit run after it.
\<close>

definition search_number :: "pystr \<Rightarrow> pystr option" where
  "search_number text =
     (case dropWhile (\<lambda>c. \<not> is_digit c) text of
        [] \<Rightarrow> None
      | c # cs \<Rightarrow>
          (case dropWhile is_digit (c # cs) of
             [] \<Rightarrow> Some (takeWhile is_digit (c # cs))
           | s # rest \<Rightarrow>
               if s = 10 then Some (takeWhile is_digit (c # cs))
               else Some (takeWhile is_digit (c # cs) @ [s] @ takeWhile is_digit rest)))"

text \<open>\<^verbatim>\<open>s.replace(old, new)\<close> for single characters.\<close>

definition replace_char :: "nat \<Rightarrow> nat \<Rightarrow> pystr \<Rightarrow> pystr" where
  "replace_char old new s = map (\<lambda>c. if c = old then new else c) s"

text \<open>
  \<^verbatim>\<open>int(s)\<close> on a string, base ten: white space around the literal is dropped (the ASCII
  blanks and the white space beyond ASCII), a sign may come first, and the digits may be
  grouped by single underscores between two digits.  Anything else is a \<^verbatim>\<open>ValueError\<close>.
  (The bound that recent interpreters put on the number of digits is left out.)
\<close>

definition int_space :: "nat \<Rightarrow> bool" where
  "int_space c \<longleftrightarrow> (9 \<le> c \<and> c \<le> 13) \<or> c = 32 \<or> (128 \<le> c \<and> is_space c)"

fun int_digits :: "nat \<Rightarrow> pystr \<Rightarrow> nat option" where
  "int_digits acc [] = Some acc"
| "int_digits acc [c] =
     (case decimal_value c of Some d \<Rightarrow> Some (10 * acc + d) | None \<Rightarrow> None)"
| "int_digits acc (c # c' # cs) =
     (case decimal_value c of
        Some d \<Rightarrow> int_digits (10 * acc + d) (c' # cs)
      | None \<Rightarrow>
          if c = 95
          then (case decimal_value c' of
                  Some d \<Rightarrow> int_digits (10 * acc + d) cs
                | None \<Rightarrow> None)
          else None)"

definition int_literal :: "pystr \<Rightarrow> nat option" where
  "int_literal s =
     (case s of
        [] \<Rightarrow> None
      | c # cs \<Rightarrow> (case decimal_value c of Some d \<Rightarrow> int_digits d cs | None \<Rightarrow> None))"

definition py_int :: "pystr \<Rightarrow> error + int" where
  "py_int s =
     (case rev (dropWhile int_space (rev (dropWhile int_space s))) of
        [] \<Rightarrow> Inl ValueError
      | c # cs \<Rightarrow>
          if c = 45
          then (case int_literal cs of Some n \<Rightarrow> Inr (- int n) | None \<Rightarrow> Inl ValueError)
          else if c = 43
          then (case int_literal cs of Some n \<Rightarrow> Inr (int n) | None \<Rightarrow> Inl ValueError)
          else (case int_literal (c # cs) of Some n \<Rightarrow> Inr (int n) | None \<Rightarrow> Inl ValueError))"

text \<open>\<^verbatim>\<open>__convert_str_to_int\<close>; a match object is always truthy.\<close>

definition convert_str_to_int :: "pystr \<Rightarrow> error + int" where
  "convert_str_to_int text =
     (case search_number text of
        Some num_str \<Rightarrow> py_int (replace_char 46 95 num_str)
      | None \<Rightarrow> Inr 0)"

section \<open>The record of a listing\<close>

record config =
  cfg_id :: int
  cfg_href :: pystr
  cfg_title :: pystr
  cfg_price :: int
  cfg_mileage :: int
  cfg_color :: pystr
  cfg_power :: int
  cfg_description :: pystr

text \<open>The scraper object: \<^verbatim>\<open>path_to_dir\<close>, the list under \<^verbatim>\<open>__data["ads"]\<close>, \<^verbatim>\<open>__page_no\<close>.\<close>

record scraper =
  path_to_dir :: pystr
  data_ads :: "config list"
  page_no :: int

text \<open>
  \<^verbatim>\<open>str.splitlines()\<close>: the text is cut at every line boundary (a carriage return
  followed by a line feed is one boundary); a boundary at the very end opens no further
  line.
\<close>

definition is_linebreak :: "nat \<Rightarrow> bool" where
  "is_linebreak c \<longleftrightarrow>
     (10 \<le> c \<and> c \<le> 13) \<or> (28 \<le> c \<and> c \<le> 30) \<or> c = 133 \<or> c = 8232 \<or> c = 8233"

fun splitlines_from :: "pystr \<Rightarrow> pystr \<Rightarrow> pystr list" where
  "splitlines_from cur [] = (if cur = [] then [] else [cur])"
| "splitlines_from cur [c] = (if is_linebreak c then [cur] else [cur @ [c]])"
| "splitlines_from cur (c # c' # cs) =
     (if c = 13 \<and> c' = 10 then cur # splitlines_from [] cs
      else if is_linebreak c then cur # splitlines_from [] (c' # cs)
      else splitlines_from (cur @ [c]) (c' # cs))"

definition splitlines :: "pystr \<Rightarrow> pystr list" where
  "splitlines s = splitlines_from [] s"

text \<open>\<^verbatim>\<open>__get_description\<close>\<close>

definition get_description :: "node option \<Rightarrow> pystr" where
  "get_description description_tag =
     (case description_tag of
        Some d \<Rightarrow>
          (let title_tag = find_tag d (asc ''label'') [(asc ''class'', asc ''sc-expandable-box__label'')];
               title = (case title_tag of
                          Some t \<Rightarrow> strip (get_text t) @ asc ''\<newline>\<newline>''
                        | None \<Rightarrow> []);
               body_tag = find_tag d (asc ''div'')
                            [(asc ''class'', asc ''short-description''),
                             (asc ''data-type'', asc ''description'')];
               body = (case body_tag of
                         Some b \<Rightarrow> join (asc ''\<newline>'') (map strip (splitlines (get_text b)))
                       | None \<Rightarrow> [])
           in title @ body)
      | None \<Rightarrow> [])"

text \<open>
  \<^verbatim>\<open>__get_page_config\<close>.  The page may be \<^verbatim>\<open>None\<close>, and \<^verbatim>\<open>find\<close> may return
  \<^verbatim>\<open>None\<close>; calling a method on \<^verbatim>\<open>None\<close> raises \<^verbatim>\<open>AttributeError\<close>.  The statements
  run in the order of the source, so the first fault met is the one raised.
\<close>

definition get_page_config :: "scraper \<Rightarrow> node option \<Rightarrow> pystr \<Rightarrow> error + config" where
  "get_page_config self page page_url =
     (case page of
        None \<Rightarrow> Inl AttributeError
      | Some pg \<Rightarrow>
          (let title_tag = find_tag pg (asc ''h1'') [(asc ''class'', asc ''sc-ellipsis sc-font-xl'')];
               price_tag = find_tag pg (asc ''h2'')
                             [(asc ''class'', asc ''sc-highlighter-4 sc-highlighter-xl sc-font-bold'')]
           in case find_tag pg (asc ''div'') [(asc ''class'', asc ''data-basic'')] of
                None \<Rightarrow> Inl AttributeError
              | Some basic \<Rightarrow>
          (let basic_data_tags = find_all basic (asc ''div'') [(asc ''class'', asc ''itemspace'')]
           in case find_tag pg (asc ''div'')
                     [(asc ''class'', asc ''sc-expandable-box__content sc-grid-row'')] of
                None \<Rightarrow> Inl AttributeError
              | Some spec \<Rightarrow>
          (let specification_tags = find_all spec (asc ''li'') [];
               description_tag = find_tag pg (asc ''div'')
                                   [(asc ''class'', asc ''sc-expandable-box''),
                                    (asc ''data-target'', asc ''[data-item-name='' @ [39] @ asc ''description'' @ [39] @ asc '']'')]
           in case convert_str_to_int (get_tag_data price_tag) of
                Inl e \<Rightarrow> Inl e
              | Inr price \<Rightarrow>
          (case convert_str_to_int
                  (get_div_param basic_data_tags (asc ''Kilometer'') (asc ''itemlbl'') (asc ''itemval'')) of
             Inl e \<Rightarrow> Inl e
           | Inr mileage \<Rightarrow>
          (case convert_str_to_int
                  (get_div_param specification_tags (asc ''Leistung'') (asc ''sc-font-bold'') []) of
             Inl e \<Rightarrow> Inl e
           | Inr power' \<Rightarrow>
               Inr \<lparr>cfg_id = page_no self,
                    cfg_href = page_url,
                    cfg_title = get_tag_data title_tag,
                    cfg_price = price,
                    cfg_mileage = mileage,
                    cfg_color = get_div_param specification_tags (asc ''Farbe'') (asc ''sc-font-bold'') [],
                    cfg_power = power',
                    cfg_description = get_description description_tag\<rparr>))))))"

section \<open>The JSON file\<close>

text \<open>
  The values that \<^verbatim>\<open>json.dump\<close> is given by this program: integers, strings, lists, and
  dictionaries with string keys in insertion order.
\<close>

datatype json = JInt int | JStr pystr | JArr "json list" | JObj "(pystr \<times> json) list"

text \<open>The dictionary built in \<^verbatim>\<open>__get_page_config\<close>, and \<^verbatim>\<open>self.__data\<close>.\<close>

definition config_dict :: "config \<Rightarrow> json" where
  "config_dict c =
     JObj [(asc ''id'', JInt (cfg_id c)),
           (asc ''href'', JStr (cfg_href c)),
           (asc ''title'', JStr (cfg_title c)),
           (asc ''price'', JInt (cfg_price c)),
           (asc ''mileage'', JInt (cfg_mileage c)),
           (asc ''color'', JStr (cfg_color c)),
           (asc ''power'', JInt (cfg_power c)),
           (asc ''description'', JStr (cfg_description c))]"

definition data_dict :: "config list \<Rightarrow> json" where
  "data_dict ads = JObj [(asc ''ads'', JArr (map config_dict ads))]"

text \<open>
  \<^verbatim>\<open>json.dump(data_dict, file, ensure_ascii=False)\<close>.  In a string only the quote, the
  backslash and the control characters below 32 are escaped; every other character, also
  beyond ASCII, is written as it is.  Items are separated by \<^verbatim>\<open>", "\<close> and a key from its
  value by \<^verbatim>\<open>": "\<close>.
\<close>

definition hex_char :: "nat \<Rightarrow> nat" where
  "hex_char d = (if d < 10 then 48 + d else 87 + d)"

definition escape_char :: "nat \<Rightarrow> pystr" where
  "escape_char c =
     (if c = 92 then [92, 92]
      else if c = 34 then [92, 34]
      else if c = 8 then [92, 98]
      else if c = 12 then [92, 102]
      else if c = 10 then [92, 110]
      else if c = 13 then [92, 114]
      else if c = 9 then [92, 116]
      else if c < 32 then [92, 117, 48, 48, hex_char (c div 16), hex_char (c mod 16)]
      else [c])"

definition encode_basestring :: "pystr \<Rightarrow> pystr" where
  "encode_basestring s = [34] @ concat (map escape_char s) @ [34]"

fun json_dumps :: "json \<Rightarrow> pystr" where
  "json_dumps (JInt i) = str_int i"
| "json_dumps (JStr s) = encode_basestring s"
| "json_dumps (JArr xs) = asc ''['' @ join (asc '', '') (map json_dumps xs) @ asc '']''"
| "json_dumps (JObj kvs) =
     asc ''{'' @
     join (asc '', '') (map (\<lambda>kv. encode_basestring (fst kv) @ asc '': '' @ json_dumps (snd kv)) kvs) @
     asc ''}''"

text \<open>
  \<^verbatim>\<open>json.load\<close>, for texts made of the four kinds of value above (any other text, such as
  one with a fraction or a literal \<^verbatim>\<open>null\<close>, gives \<open>None\<close> here).  The decoder skips
  blanks, tabs and line ends between tokens.
\<close>

definition is_json_ws :: "nat \<Rightarrow> bool" where
  "is_json_ws c \<longleftrightarrow> c = 32 \<or> c = 9 \<or> c = 10 \<or> c = 13"

definition skip_ws :: "pystr \<Rightarrow> pystr" where
  "skip_ws s = dropWhile is_json_ws s"

definition hex_val :: "nat \<Rightarrow> nat option" where
  "hex_val c =
     (if 48 \<le> c \<and> c \<le> 57 then Some (c - 48)
      else if 97 \<le> c \<and> c \<le> 102 then Some (c - 87)
      else if 65 \<le> c \<and> c \<le> 70 then Some (c - 55)
      else None)"

definition hex4 :: "nat \<Rightarrow> nat \<Rightarrow> nat \<Rightarrow> nat \<Rightarrow> nat option" where
  "hex4 a b c d =
     (case (hex_val a, hex_val b, hex_val c, hex_val d) of
        (Some x, Some y, Some z, Some u) \<Rightarrow> Some (((x * 16 + y) * 16 + z) * 16 + u)
      | _ \<Rightarrow> None)"

definition unescape :: "nat \<Rightarrow> nat option" where
  "unescape e =
     (if e = 34 then Some 34 else if e = 92 then Some 92 else if e = 47 then Some 47
      else if e = 98 then Some 8 else if e = 102 then Some 12 else if e = 110 then Some 10
      else if e = 114 then Some 13 else if e = 116 then Some 9 else None)"

text \<open>
  The four hexadecimal digits after \<^verbatim>\<open>\u\<close>; a high surrogate followed by an escaped low
  surrogate is one character.
\<close>

definition take_hex4 :: "pystr \<Rightarrow> (nat \<times> pystr) option" where
  "take_hex4 s =
     (case s of
        a # b # c # d # r \<Rightarrow> map_option (\<lambda>u. (u, r)) (hex4 a b c d)
      | _ \<Rightarrow> None)"

definition unicode_escape :: "pystr \<Rightarrow> (nat \<times> pystr) option" where
  "unicode_escape s =
     (case take_hex4 s of
        None \<Rightarrow> None
      | Some (uni, r) \<Rightarrow>
          if 55296 \<le> uni \<and> uni \<le> 56319 then
            (case r of
               bs # u # r2 \<Rightarrow>
                 if bs = 92 \<and> u = 117 then
                   (case take_hex4 r2 of
                      Some (uni2, r3) \<Rightarrow>
                        if 56320 \<le> uni2 \<and> uni2 \<le> 57343
                        then Some (65536 + ((uni - 55296) * 1024 + (uni2 - 56320)), r3)
                        else Some (uni, r)
                    | None \<Rightarrow> Some (uni, r))
                 else Some (uni, r)
             | _ \<Rightarrow> Some (uni, r))
          else Some (uni, r))"

lemma take_hex4_length: "take_hex4 s = Some (u, r) \<Longrightarrow> length r < length s"
  by (auto simp: take_hex4_def split: list.splits)

lemma unicode_escape_length: "unicode_escape s = Some (ch, r) \<Longrightarrow> length r < length s"
  unfolding unicode_escape_def
  by (auto split: option.splits if_splits list.splits dest!: take_hex4_length)

text \<open>
  The inside of a string up to its closing quote: the decoded string and the text after the
  quote.  A control character that is not escaped is an error.
\<close>

function scan_string :: "pystr \<Rightarrow> (pystr \<times> pystr) option" where
  "scan_string [] = None"
| "scan_string (c # cs) =
     (if c = 34 then Some ([], cs)
      else if c = 92 then
        (case cs of
           [] \<Rightarrow> None
         | e # r \<Rightarrow>
             if e = 117 then
               (case unicode_escape r of
                  None \<Rightarrow> None
                | Some (ch, r') \<Rightarrow> map_option (\<lambda>(s, t). (ch # s, t)) (scan_string r'))
             else (case unescape e of
                     None \<Rightarrow> None
                   | Some d \<Rightarrow> map_option (\<lambda>(s, t). (d # s, t)) (scan_string r)))
      else if c < 32 then None
      else map_option (\<lambda>(s, t). (c # s, t)) (scan_string cs))"
  by pat_completeness auto
termination
  by (relation "measure length") (auto dest: unicode_escape_length)

text \<open>
  An integer literal: an optional minus sign, then \<^verbatim>\<open>0\<close> or a digit run without a leading
  zero.  A fraction or an exponent after it would make a float.
\<close>

definition ascii_digit :: "nat \<Rightarrow> bool" where
  "ascii_digit c \<longleftrightarrow> 48 \<le> c \<and> c \<le> 57"

definition digits_value :: "pystr \<Rightarrow> nat" where
  "digits_value ds = foldl (\<lambda>a d. 10 * a + (d - 48)) 0 ds"

definition scan_nat :: "pystr \<Rightarrow> (nat \<times> pystr) option" where
  "scan_nat s =
     (case s of
        [] \<Rightarrow> None
      | c # cs \<Rightarrow>
          if c = 48 then Some (0, cs)
          else if ascii_digit c
          then Some (digits_value (takeWhile ascii_digit (c # cs)), dropWhile ascii_digit (c # cs))
          else None)"

definition float_follows :: "pystr \<Rightarrow> bool" where
  "float_follows r =
     (case r of
        [] \<Rightarrow> False
      | c # cs \<Rightarrow>
          (c = 46 \<and> (case cs of [] \<Rightarrow> False | d # ds \<Rightarrow> ascii_digit d)) \<or>
          ((c = 101 \<or> c = 69) \<and>
           (case cs of
              [] \<Rightarrow> False
            | d # ds \<Rightarrow>
                ascii_digit d \<or>
                ((d = 43 \<or> d = 45) \<and> (case ds of [] \<Rightarrow> False | g # gs \<Rightarrow> ascii_digit g)))))"

definition scan_int :: "pystr \<Rightarrow> (int \<times> pystr) option" where
  "scan_int s =
     (case (case s of
              [] \<Rightarrow> None
            | c # cs \<Rightarrow>
                if c = 45 then map_option (\<lambda>(n, r). (- int n, r)) (scan_nat cs)
                else map_option (\<lambda>(n, r). (int n, r)) (scan_nat s)) of
        None \<Rightarrow> None
      | Some (i, r) \<Rightarrow> if float_follows r then None else Some (i, r))"

text \<open>
  The recursive descent over values, the items of a list and the members of a dictionary.
  The first argument bounds the number of nested calls.
\<close>

fun parse_value :: "nat \<Rightarrow> pystr \<Rightarrow> (json \<times> pystr) option"
  and parse_array :: "nat \<Rightarrow> pystr \<Rightarrow> (json list \<times> pystr) option"
  and parse_object :: "nat \<Rightarrow> pystr \<Rightarrow> ((pystr \<times> json) list \<times> pystr) option" where
  "parse_value 0 s = None"
| "parse_value (Suc n) [] = None"
| "parse_value (Suc n) (c # cs) =
     (if c = 34 then map_option (\<lambda>(t, r). (JStr t, r)) (scan_string cs)
      else if c = 91 then
        (case skip_ws cs of
           [] \<Rightarrow> None
         | d # ds \<Rightarrow>
             if d = 93 then Some (JArr [], ds)
             else map_option (\<lambda>(xs, r). (JArr xs, r)) (parse_array n (d # ds)))
      else if c = 123 then
        (case skip_ws cs of
           [] \<Rightarrow> None
         | d # ds \<Rightarrow>
             if d = 125 then Some (JObj [], ds)
             else map_option (\<lambda>(kvs, r). (JObj kvs, r)) (parse_object n (d # ds)))
      else map_option (\<lambda>(i, r). (JInt i, r)) (scan_int (c # cs)))"
| "parse_array 0 s = None"
| "parse_array (Suc n) s =
     (case parse_value n s of
        None \<Rightarrow> None
      | Some (v, r) \<Rightarrow>
          (case skip_ws r of
             [] \<Rightarrow> None
           | d # ds \<Rightarrow>
               if d = 93 then Some ([v], ds)
               else if d = 44 then map_option (\<lambda>(vs, t). (v # vs, t)) (parse_array n (skip_ws ds))
               else None))"
| "parse_object 0 s = None"
| "parse_object (Suc n) s =
     (case s of
        [] \<Rightarrow> None
      | q # cs \<Rightarrow>
          if q \<noteq> 34 then None
          else (case scan_string cs of
                  None \<Rightarrow> None
                | Some (k, r) \<Rightarrow>
                    (case skip_ws r of
                       [] \<Rightarrow> None
                     | colon # r1 \<Rightarrow>
                         if colon \<noteq> 58 then None
                         else (case parse_value n (skip_ws r1) of
                                 None \<Rightarrow> None
                               | Some (v, r2) \<Rightarrow>
                                   (case skip_ws r2 of
                                      [] \<Rightarrow> None
                                    | d # ds \<Rightarrow>
                                        if d = 125 then Some ([(k, v)], ds)
                                        else if d = 44
                                        then map_option (\<lambda>(kvs, t). ((k, v) # kvs, t))
                                               (parse_object n (skip_ws ds))
                                        else None)))))"

text \<open>The whole text is one value, with white space around it; one call per character suffices.\<close>

definition json_loads :: "pystr \<Rightarrow> json option" where
  "json_loads s =
     (case parse_value (Suc (length s)) (skip_ws s) of
        None \<Rightarrow> None
      | Some (v, r) \<Rightarrow> if skip_ws r = [] then Some v else None)"

text \<open>
  The file is opened with \<^verbatim>\<open>encoding="UTF-8"\<close>: the text is written as the UTF-8 bytes
  of its characters.  A surrogate has no encoding: writing it raises
  \<^verbatim>\<open>UnicodeEncodeError\<close>.
\<close>

definition utf8_char :: "nat \<Rightarrow> nat list option" where
  "utf8_char c =
     (if c < 128 then Some [c]
      else if c < 2048 then Some [192 + c div 64, 128 + c mod 64]
      else if c < 65536 then
        (if 55296 \<le> c \<and> c \<le> 57343 then None
         else Some [224 + c div 4096, 128 + c div 64 mod 64, 128 + c mod 64])
      else if c < 1114112 then
        Some [240 + c div 262144, 128 + c div 4096 mod 64, 128 + c div 64 mod 64, 128 + c mod 64]
      else None)"

fun utf8_encode :: "pystr \<Rightarrow> nat list option" where
  "utf8_encode [] = Some []"
| "utf8_encode (c # cs) =
     (case utf8_char c of
        None \<Rightarrow> None
      | Some bs \<Rightarrow> map_option (\<lambda>rest. bs @ rest) (utf8_encode cs))"

text \<open>Reading the bytes back as UTF-8, strictly: no overlong form, no surrogate.\<close>

definition continuation :: "nat \<Rightarrow> bool" where
  "continuation b \<longleftrightarrow> 128 \<le> b \<and> b < 192"

fun utf8_decode :: "nat list \<Rightarrow> pystr option" where
  "utf8_decode [] = Some []"
| "utf8_decode (b # bs) =
     (if b < 128 then map_option (\<lambda>s. b # s) (utf8_decode bs)
      else if 194 \<le> b \<and> b < 224 then
        (case bs of
           b1 # r \<Rightarrow>
             if continuation b1
             then map_option (\<lambda>s. ((b - 192) * 64 + (b1 - 128)) # s) (utf8_decode r)
             else None
         | _ \<Rightarrow> None)
      else if 224 \<le> b \<and> b < 240 then
        (case bs of
           b1 # b2 # r \<Rightarrow>
             (let c = (b - 224) * 4096 + (b1 - 128) * 64 + (b2 - 128)
              in if continuation b1 \<and> continuation b2 \<and> 2048 \<le> c \<and> \<not> (55296 \<le> c \<and> c \<le> 57343)
                 then map_option (\<lambda>s. c # s) (utf8_decode r)
                 else None)
         | _ \<Rightarrow> None)
      else if 240 \<le> b \<and> b < 245 then
        (case bs of
           b1 # b2 # b3 # r \<Rightarrow>
             (let c = (b - 240) * 262144 + (b1 - 128) * 4096 + (b2 - 128) * 64 + (b3 - 128)
              in if continuation b1 \<and> continuation b2 \<and> continuation b3 \<and>
                    65536 \<le> c \<and> c < 1114112
                 then map_option (\<lambda>s. c # s) (utf8_decode r)
                 else None)
         | _ \<Rightarrow> None)
      else None)"

text \<open>The bytes of the file after a dump, and the document that a load of the file gives.\<close>

definition dumped_bytes :: "json \<Rightarrow> nat list option" where
  "dumped_bytes doc = utf8_encode (json_dumps doc)"

definition load_bytes :: "nat list \<Rightarrow> json option" where
  "load_bytes bs = (case utf8_decode bs of None \<Rightarrow> None | Some text \<Rightarrow> json_loads text)"

section \<open>The outside world and the effects of a run\<close>

text \<open>
  What \<^verbatim>\<open>requests.get\<close> meets at a URL: no response at all (connection error, timeout),
  or a response with its status code and its body as the HTML parser reads it.
\<close>

datatype http_outcome = NetworkFailure | Response int node

text \<open>
  The world of one run: the outcome of a GET at each URL, and whether
  \<^verbatim>\<open>urlretrieve(url, filename)\<close> succeeds.  The world does not change during a run: the
  same request has the same outcome each time.
\<close>

record world =
  http_get :: "pystr \<Rightarrow> http_outcome"
  url_retrieve :: "pystr \<Rightarrow> pystr \<Rightarrow> bool"

text \<open>
  The effects of the program, in the order they happen: a directory made, a GET sent, a
  retrieval of a URL into a file started, a file opened for writing and a document dumped
  into it as JSON.  Making a directory (\<^verbatim>\<open>__create_dir\<close>, with \<^verbatim>\<open>exist_ok=True\<close>) and
  opening the file are taken to succeed.
\<close>

datatype event =
    MkDir pystr
  | Get pystr
  | Retrieve pystr pystr
  | WriteJson pystr json

text \<open>\<^verbatim>\<open>__parse_page\<close>; a failure of the request is an exception that nothing catches.\<close>

definition parse_page :: "world \<Rightarrow> pystr \<Rightarrow> event list \<times> (error + node option)" where
  "parse_page w url =
     (case http_get w url of
        NetworkFailure \<Rightarrow> ([Get url], Inl RequestException)
      | Response status_code doc \<Rightarrow>
          ([Get url], Inr (if status_code = 200 then Some doc else None)))"

section \<open>Image download\<close>

text \<open>\<^verbatim>\<open>s.split(sep)\<close> for a separator of one character; the result is never empty.\<close>

fun split_char :: "nat \<Rightarrow> pystr \<Rightarrow> pystr list" where
  "split_char sep [] = [[]]"
| "split_char sep (c # cs) =
     (if c = sep then [] # split_char sep cs
      else (case split_char sep cs of
              p # ps \<Rightarrow> (c # p) # ps
            | [] \<Rightarrow> [[c]]))"

text \<open>\<^verbatim>\<open>xs[:k]\<close>; a negative bound counts from the end.\<close>

definition slice_to :: "'a list \<Rightarrow> int \<Rightarrow> 'a list" where
  "slice_to xs k = (if k < 0 then take (nat (int (length xs) + k)) xs else take (nat k) xs)"

text \<open>
  The \<^verbatim>\<open>for i in range(image_num)\<close> loop of \<^verbatim>\<open>__download_images\<close>, over the indices
  that are left.  An element without the \<^verbatim>\<open>data-src\<close> attribute gave \<^verbatim>\<open>None\<close>, and
  \<^verbatim>\<open>None.split\<close> raises; a failed retrieval raises as well.
\<close>

fun download_loop :: "world \<Rightarrow> pystr \<Rightarrow> pystr option list \<Rightarrow> nat list \<Rightarrow> event list \<times> (error + unit)" where
  "download_loop w dir images [] = ([], Inr ())"
| "download_loop w dir images (i # rest) =
     (if length images \<le> i then ([], Inl IndexError)
      else (case images ! i of
              None \<Rightarrow> ([], Inl AttributeError)
            | Some image_url \<Rightarrow>
                (let image_extension = last (split_char 46 image_url);
                     filename = dir @ asc ''/image_'' @ str_int (int i + 1) @ asc ''.'' @ image_extension
                 in if url_retrieve w image_url filename
                    then (case download_loop w dir images rest of
                            (tr, r) \<Rightarrow> (Retrieve image_url filename # tr, r))
                    else ([Retrieve image_url filename], Inl URLError))))"

text \<open>\<^verbatim>\<open>__download_images\<close>\<close>

definition download_images ::
  "world \<Rightarrow> scraper \<Rightarrow> node option \<Rightarrow> int \<Rightarrow> event list \<times> (error + unit)" where
  "download_images w self page image_num =
     (case page of
        None \<Rightarrow> ([], Inl AttributeError)
      | Some pg \<Rightarrow>
          (let image_tags = find_all pg (asc ''img'')
                              [(asc ''class'', asc ''gallery-picture__image sc-lazy-image lazyload'')];
               image_num' = (if int (length image_tags) \<ge> image_num then image_num
                             else int (length image_tags));
               images = map (\<lambda>img. attr_get img (asc ''data-src'')) (slice_to image_tags image_num');
               dir = path_to_dir self @ asc ''/'' @ str_int (page_no self)
           in case download_loop w dir images [0 ..< nat image_num'] of
                (tr, r) \<Rightarrow> (MkDir dir # tr, r)))"

section \<open>The driver\<close>

definition WEBSITE_URL :: pystr where
  "WEBSITE_URL = asc ''https://www.truckscout24.de''"

definition WEBSITE_CATALOG_URL :: pystr where
  "WEBSITE_CATALOG_URL = WEBSITE_URL @ asc ''/transporter/gebraucht/kuehl-iso-frischdienst/renault''"

text \<open>\<^verbatim>\<open>__init__\<close>\<close>

definition init :: "pystr \<Rightarrow> event list \<times> scraper" where
  "init dir = ([MkDir dir], \<lparr>path_to_dir = dir, data_ads = [], page_no = 1\<rparr>)"

text \<open>
  One pass through the body of \<^verbatim>\<open>while True\<close> in \<^verbatim>\<open>process\<close>: the effects of the pass,
  and either the fault that ends the run, or \<open>None\<close> for \<^verbatim>\<open>break\<close>, or the scraper after
  the pass.
\<close>

definition iteration :: "world \<Rightarrow> scraper \<Rightarrow> event list \<times> (error + scraper option)" where
  "iteration w self =
     (case parse_page w (WEBSITE_CATALOG_URL @ asc ''?currentpage='' @ str_int (page_no self)) of
        (tr1, Inl e) \<Rightarrow> (tr1, Inl e)
      | (tr1, Inr None) \<Rightarrow> (tr1, Inl AttributeError)
      | (tr1, Inr (Some catalog_page)) \<Rightarrow>
          (case find_tag catalog_page (asc ''a'') [(asc ''data-item-name'', asc ''detail-page-link'')] of
             None \<Rightarrow> (tr1, Inr None)
           | Some first_ad_url_tag \<Rightarrow>
               (case attr_get first_ad_url_tag (asc ''href'') of
                  None \<Rightarrow> (tr1, Inl AttributeError)
                | Some href \<Rightarrow>
                    (let first_ad_url = WEBSITE_URL @ strip href
                     in case parse_page w first_ad_url of
                          (tr2, Inl e) \<Rightarrow> (tr1 @ tr2, Inl e)
                        | (tr2, Inr page) \<Rightarrow>
                            (case get_page_config self page first_ad_url of
                               Inl e \<Rightarrow> (tr1 @ tr2, Inl e)
                             | Inr config \<Rightarrow>
                                 (let self' = self\<lparr>data_ads := data_ads self @ [config]\<rparr>
                                  in case download_images w self' page 3 of
                                       (tr3, Inl e) \<Rightarrow> (tr1 @ tr2 @ tr3, Inl e)
                                     | (tr3, Inr u) \<Rightarrow>
                                         (tr1 @ tr2 @ tr3,
                                          Inr (Some (self'\<lparr>page_no := page_no self' + 1\<rparr>)))))))))"

text \<open>
  The loop of \<^verbatim>\<open>process\<close>.  Nothing bounds the number of passes, so the loop is a partial
  function: \<open>None\<close> is a run that never leaves the loop.
\<close>

partial_function (option) process_loop ::
  "world \<Rightarrow> event list \<Rightarrow> scraper \<Rightarrow> (event list \<times> (error + scraper)) option" where
  "process_loop w tr self =
     (case iteration w self of
        (tr', Inl e) \<Rightarrow> Some (tr @ tr', Inl e)
      | (tr', Inr None) \<Rightarrow> Some (tr @ tr', Inr self)
      | (tr', Inr (Some self')) \<Rightarrow> process_loop w (tr @ tr') self')"

declare process_loop.simps [code]

text \<open>
  \<^verbatim>\<open>__save_json_data\<close>: the file is opened and the document dumped; the dump raises when
  the text has no UTF-8 encoding.
\<close>

definition save_json_data :: "json \<Rightarrow> pystr \<Rightarrow> event list \<times> (error + unit)" where
  "save_json_data doc path =
     ([WriteJson path doc],
      case dumped_bytes doc of None \<Rightarrow> Inl UnicodeEncodeError | Some bytes \<Rightarrow> Inr ())"

text \<open>\<^verbatim>\<open>process\<close>\<close>

definition process :: "world \<Rightarrow> scraper \<Rightarrow> (event list \<times> (error + scraper)) option" where
  "process w self =
     (case process_loop w [] self of
        None \<Rightarrow> None
      | Some (tr, Inl e) \<Rightarrow> Some (tr, Inl e)
      | Some (tr, Inr self') \<Rightarrow>
          (case save_json_data (data_dict (data_ads self')) (path_to_dir self' @ asc ''/data.json'') of
             (tr', Inl e) \<Rightarrow> Some (tr @ tr', Inl e)
           | (tr', Inr u) \<Rightarrow> Some (tr @ tr', Inr self')))"

section \<open>Sample documents\<close>

text \<open>Small documents and worlds on which the definitions are run.\<close>

definition li_row :: "pystr \<Rightarrow> pystr \<Rightarrow> node" where
  "li_row label val =
     Elem (asc ''li'') None []
       [Elem (asc ''div'') (Some [asc ''sc-font-bold'']) [] [Text label],
        Elem (asc ''div'') None [] [Text val]]"

definition gallery_img :: "pystr \<Rightarrow> node" where
  "gallery_img src =
     Elem (asc ''img'')
       (Some [asc ''gallery-picture__image'', asc ''sc-lazy-image'', asc ''lazyload''])
       [(asc ''data-src'', src)] []"

definition title_h1 :: node where
  "title_h1 =
     Elem (asc ''h1'') (Some [asc ''sc-ellipsis'', asc ''sc-font-xl'']) []
       [Text (asc ''Renault Master'')]"

definition price_h2 :: node where
  "price_h2 =
     Elem (asc ''h2'')
       (Some [asc ''sc-highlighter-4'', asc ''sc-highlighter-xl'', asc ''sc-font-bold'']) []
       [Text (asc ''12.500 '' @ [8364])]"

definition basic_data_div :: node where
  "basic_data_div =
     Elem (asc ''div'') (Some [asc ''data-basic'']) []
       [Elem (asc ''div'') (Some [asc ''itemspace'']) []
          [Elem (asc ''div'') (Some [asc ''itemlbl'']) [] [Text (asc ''Kilometer'')],
           Elem (asc ''div'') (Some [asc ''itemval'']) [] [Text (asc ''150.000 km'')]]]"

definition specification_div :: node where
  "specification_div =
     Elem (asc ''div'') (Some [asc ''sc-expandable-box__content'', asc ''sc-grid-row'']) []
       [Elem (asc ''ul'') None []
          [li_row (asc ''Farbe'') (asc ''Wei'' @ [223]),
           li_row (asc ''Leistung'') (asc ''120 kW'')]]"

definition description_div :: node where
  "description_div =
     Elem (asc ''div'') (Some [asc ''sc-expandable-box''])
       [(asc ''data-target'', asc ''[data-item-name='' @ [39] @ asc ''description'' @ [39] @ asc '']'')]
       [Elem (asc ''label'') (Some [asc ''sc-expandable-box__label'']) [] [Text (asc ''Gepflegt'')],
        Elem (asc ''div'') (Some [asc ''short-description''])
          [(asc ''data-type'', asc ''description'')]
          [Text (asc '' Erste Hand \<newline>  Scheckheft '')]]"

definition detail_page :: node where
  "detail_page =
     Elem (asc ''[document]'') None []
       [title_h1, price_h2, basic_data_div, specification_div, description_div,
        gallery_img (asc ''https://img.example.com/a/1.jpg''),
        gallery_img (asc ''https://img.example.com/a/2.png'')]"

text \<open>A detail page that has every block but the basic-data block.\<close>

definition page_without_basic_data :: node where
  "page_without_basic_data =
     Elem (asc ''[document]'') None []
       [title_h1, price_h2, specification_div, description_div]"

text \<open>A detail page that has every block but the specification list.\<close>

definition page_without_specification :: node where
  "page_without_specification =
     Elem (asc ''[document]'') None []
       [title_h1, price_h2, basic_data_div, description_div]"

text \<open>A detail page with both blocks present and empty, and nothing else.\<close>

definition bare_page :: node where
  "bare_page =
     Elem (asc ''[document]'') None []
       [Elem (asc ''div'') (Some [asc ''data-basic'']) [] [],
        Elem (asc ''div'') (Some [asc ''sc-expandable-box__content'', asc ''sc-grid-row'']) [] []]"

definition detail_url :: pystr where
  "detail_url = WEBSITE_URL @ asc ''/transporter/details/1.html''"

definition catalog_with_link :: node where
  "catalog_with_link =
     Elem (asc ''[document]'') None []
       [Elem (asc ''a'') None
          [(asc ''data-item-name'', asc ''detail-page-link''),
           (asc ''href'', asc '' /transporter/details/1.html '')]
          [Text (asc ''Renault Master'')]]"

definition catalog_without_link :: node where
  "catalog_without_link =
     Elem (asc ''[document]'') None [] [Elem (asc ''p'') None [] [Text (asc ''Keine Ergebnisse'')]]"

text \<open>
  A world with one listing: the first catalog page links to it, the second catalog page has
  no link, every other request fails; every retrieval succeeds.
\<close>

definition one_listing_world :: world where
  "one_listing_world =
     \<lparr>http_get = (\<lambda>url.
          if url = WEBSITE_CATALOG_URL @ asc ''?currentpage=1'' then Response 200 catalog_with_link
          else if url = WEBSITE_CATALOG_URL @ asc ''?currentpage=2'' then Response 200 catalog_without_link
          else if url = detail_url then Response 200 detail_page
          else if url = asc ''https://www.truckscout24.de/gone'' then Response 404 catalog_without_link
          else NetworkFailure),
      url_retrieve = (\<lambda>url filename. True)\<rparr>"

text \<open>The record of the one listing, the scraper after the pass that visits it, its effects.\<close>

definition renault_record :: config where
  "renault_record =
     \<lparr>cfg_id = 1, cfg_href = detail_url, cfg_title = asc ''Renault Master'',
      cfg_price = 12500, cfg_mileage = 150000, cfg_color = asc ''Wei'' @ [223], cfg_power = 120,
      cfg_description = asc ''Gepflegt\<newline>\<newline>Erste Hand\<newline>Scheckheft''\<rparr>"

definition after_first_pass :: scraper where
  "after_first_pass = \<lparr>path_to_dir = asc ''data'', data_ads = [renault_record], page_no = 2\<rparr>"

definition first_pass_events :: "event list" where
  "first_pass_events =
     [Get (WEBSITE_CATALOG_URL @ asc ''?currentpage=1''),
      Get detail_url,
      MkDir (asc ''data/1''),
      Retrieve (asc ''https://img.example.com/a/1.jpg'') (asc ''data/1/image_1.jpg''),
      Retrieve (asc ''https://img.example.com/a/2.png'') (asc ''data/1/image_2.png'')]"

text \<open>A detail page whose only gallery image has no \<^verbatim>\<open>data-src\<close> attribute.\<close>

definition page_img_without_src :: node where
  "page_img_without_src =
     Elem (asc ''[document]'') None []
       [Elem (asc ''img'')
          (Some [asc ''gallery-picture__image'', asc ''sc-lazy-image'', asc ''lazyload'']) [] []]"

text \<open>A detail page whose gallery image is addressed with a query string.\<close>

definition page_query_url :: node where
  "page_query_url =
     Elem (asc ''[document]'') None []
       [gallery_img (asc ''https://img.example.com/a/photo.jpg?v=1.2'')]"

text \<open>A record with a title beyond ASCII, and the bytes of its dump.\<close>

definition eszett_record :: config where
  "eszett_record =
     \<lparr>cfg_id = 7, cfg_href = asc ''u'', cfg_title = [223], cfg_price = 0, cfg_mileage = 0,
      cfg_color = [], cfg_power = 0, cfg_description = []\<rparr>"

definition eszett_bytes :: "nat list" where
  "eszett_bytes =
     asc ''{'' @ [34] @ asc ''ads'' @ [34] @ asc '': [{'' @ [34] @ asc ''id'' @ [34] @
     asc '': 7, '' @ [34] @ asc ''href'' @ [34] @ asc '': '' @ [34] @ asc ''u'' @ [34] @
     asc '', '' @ [34] @ asc ''title'' @ [34] @ asc '': '' @ [34] @ [195, 159] @ [34] @
     asc '', '' @ [34] @ asc ''price'' @ [34] @ asc '': 0, '' @ [34] @ asc ''mileage'' @
     [34] @ asc '': 0, '' @ [34] @ asc ''color'' @ [34] @ asc '': '' @ [34] @ [34] @
     asc '', '' @ [34] @ asc ''power'' @ [34] @ asc '': 0, '' @ [34] @
     asc ''description'' @ [34] @ asc '': '' @ [34] @ [34] @ asc ''}]}''"

section \<open>Reading the effects\<close>

text \<open>The retrievals among the effects, in order: URL and file name.\<close>

fun retrievals :: "event list \<Rightarrow> (pystr \<times> pystr) list" where
  "retrievals [] = []"
| "retrievals (Retrieve url filename # es) = (url, filename) # retrievals es"
| "retrievals (e # es) = retrievals es"

text \<open>
  The bytes in the file at a path after a run of effects, \<open>None\<close> when they are not
  known: a dump into the file leaves the UTF-8 bytes of the dumped text (nothing known when
  the dump raised), a retrieval into the file leaves bytes of the network, and every other
  effect leaves the file as it was.
\<close>

fun file_bytes_from :: "nat list option \<Rightarrow> event list \<Rightarrow> pystr \<Rightarrow> nat list option" where
  "file_bytes_from cur [] path = cur"
| "file_bytes_from cur (WriteJson p doc # es) path =
     file_bytes_from (if p = path then dumped_bytes doc else cur) es path"
| "file_bytes_from cur (Retrieve url filename # es) path =
     file_bytes_from (if filename = path then None else cur) es path"
| "file_bytes_from cur (MkDir dir # es) path = file_bytes_from cur es path"
| "file_bytes_from cur (Get url # es) path = file_bytes_from cur es path"

definition file_bytes :: "event list \<Rightarrow> pystr \<Rightarrow> nat list option" where
  "file_bytes tr path = file_bytes_from None tr path"

text \<open>Names for expressions of the source that the statements below repeat.\<close>

abbreviation gallery :: "node \<Rightarrow> node list" where
  "gallery pg \<equiv>
     find_all pg (asc ''img'') [(asc ''class'', asc ''gallery-picture__image sc-lazy-image lazyload'')]"

abbreviation listing_dir :: "scraper \<Rightarrow> pystr" where
  "listing_dir self \<equiv> path_to_dir self @ asc ''/'' @ str_int (page_no self)"

abbreviation image_file :: "pystr \<Rightarrow> nat \<Rightarrow> pystr \<Rightarrow> pystr" where
  "image_file dir i url \<equiv>
     dir @ asc ''/image_'' @ str_int (int i + 1) @ asc ''.'' @ last (split_char 46 url)"

abbreviation catalog_url :: "int \<Rightarrow> pystr" where
  "catalog_url n \<equiv> WEBSITE_CATALOG_URL @ asc ''?currentpage='' @ str_int n"

abbreviation detail_link :: "node \<Rightarrow> node option" where
  "detail_link catalog_page \<equiv>
     find_tag catalog_page (asc ''a'') [(asc ''data-item-name'', asc ''detail-page-link'')]"

text \<open>
  The scrapers that the loop of \<^verbatim>\<open>process\<close> passes through: \<open>reaches w s0 tr s\<close> when
  some number of complete passes, none ending the run, lead from \<open>s0\<close> to \<open>s\<close> with the
  effects \<open>tr\<close>.
\<close>

inductive reaches :: "world \<Rightarrow> scraper \<Rightarrow> event list \<Rightarrow> scraper \<Rightarrow> bool" for w s0 where
  start: "reaches w s0 [] s0"
| pass: "reaches w s0 tr s \<Longrightarrow> iteration w s = (tr', Inr (Some s')) \<Longrightarrow> reaches w s0 (tr @ tr') s'"

text \<open>What may follow a value in dumped text: nothing, a comma, or a closing bracket.\<close>

definition ends_value :: "pystr \<Rightarrow> bool" where
  "ends_value rest \<longleftrightarrow> (case rest of [] \<Rightarrow> True | c # cs \<Rightarrow> c = 44 \<or> c = 93 \<or> c = 125)"

text \<open>A number of nested calls that suffices to read a value back from its dump.\<close>

fun fuel :: "json \<Rightarrow> nat" where
  "fuel (JInt i) = 1"
| "fuel (JStr s) = 1"
| "fuel (JArr xs) = 2 + sum_list (map fuel xs)"
| "fuel (JObj kvs) = 2 + sum_list (map (\<lambda>kv. fuel (snd kv)) kvs)"

section \<open>Evaluation on concrete input\<close>

lemma decimal_value_low:
  "c < 1632 \<Longrightarrow> decimal_value c = (if 48 \<le> c \<and> c \<le> 57 then Some (c - 48) else None)"
  by (simp add: decimal_value_def decimal_bases_def)

lemma is_digit_low: "c < 1632 \<Longrightarrow> is_digit c \<longleftrightarrow> 48 \<le> c \<and> c \<le> 57"
  by (simp add: is_digit_def decimal_value_low)

lemma decimal_value_gap: "7258 \<le> c \<Longrightarrow> c < 42528 \<Longrightarrow> decimal_value c = None"
  by (simp add: decimal_value_def decimal_bases_def)

lemma is_digit_gap: "7258 \<le> c \<Longrightarrow> c < 42528 \<Longrightarrow> \<not> is_digit c"
  by (simp add: is_digit_def decimal_value_gap)

lemmas number_simps =
  convert_str_to_int_def search_number_def replace_char_def py_int_def int_space_def
  is_space_def int_literal_def decimal_value_low is_digit_low decimal_value_gap is_digit_gap

lemmas dom_simps = find_tag_def find_all_def get_tag_data_def strip_def

lemmas sample_simps =
  li_row_def gallery_img_def title_h1_def price_h2_def basic_data_div_def specification_div_def
  description_div_def detail_page_def page_without_basic_data_def bare_page_def detail_url_def
  page_without_specification_def
  catalog_with_link_def catalog_without_link_def one_listing_world_def
  page_img_without_src_def page_query_url_def WEBSITE_URL_def WEBSITE_CATALOG_URL_def

section \<open>Label/value lookup\<close>

lemma get_div_param_skip:
  assumes "\<forall>t\<in>set pre.
      get_tag_data (find_tag t (asc ''div'') [(asc ''class'', pc)]) \<noteq> p"
  shows "get_div_param (pre @ rest) p pc vc = get_div_param rest p pc vc"
  using assms by (induction pre) simp_all

text \<open>
  C3.  The lookup walks the candidate elements in document order.  The label of an element
  is the trimmed text of its first \<^verbatim>\<open>div\<close> of the label class (empty when there is none).
  The result is the trimmed text of the value \<^verbatim>\<open>div\<close> of the first element whose label
  equals the target, whatever follows that element (also a second element with the same
  label); when no element has the target as its label, the result is the empty string.
\<close>

theorem get_div_param_first_match:
  "((\<forall>t\<in>set pre. get_tag_data (find_tag t (asc ''div'') [(asc ''class'', pc)]) \<noteq> p) \<and>
    get_tag_data (find_tag tag (asc ''div'') [(asc ''class'', pc)]) = p
    \<longrightarrow> get_div_param (pre @ tag # post) p pc vc
          = get_tag_data (find_tag tag (asc ''div'') [(asc ''class'', vc)]))
   \<and> ((\<forall>t\<in>set tags. get_tag_data (find_tag t (asc ''div'') [(asc ''class'', pc)]) \<noteq> p)
    \<longrightarrow> get_div_param tags p pc vc = [])"
proof (intro conjI impI)
  assume h: "(\<forall>t\<in>set pre. get_tag_data (find_tag t (asc ''div'') [(asc ''class'', pc)]) \<noteq> p) \<and>
    get_tag_data (find_tag tag (asc ''div'') [(asc ''class'', pc)]) = p"
  then have "get_div_param (pre @ tag # post) p pc vc = get_div_param (tag # post) p pc vc"
    using get_div_param_skip [of pre pc p "tag # post" vc] by blast
  with h show "get_div_param (pre @ tag # post) p pc vc
      = get_tag_data (find_tag tag (asc ''div'') [(asc ''class'', vc)])"
    by simp
next
  assume "\<forall>t\<in>set tags. get_tag_data (find_tag t (asc ''div'') [(asc ''class'', pc)]) \<noteq> p"
  then have "get_div_param (tags @ []) p pc vc = get_div_param [] p pc vc"
    by (rule get_div_param_skip)
  then show "get_div_param tags p pc vc = []"
    by simp
qed

theorem get_div_param_first_match_witness:
  "get_tag_data (find_tag (li_row (asc '' Leistung '') (asc ''120 kW'')) (asc ''div'')
         [(asc ''class'', asc ''sc-font-bold'')]) \<noteq> asc ''Farbe''
   \<and> get_tag_data (find_tag (li_row (asc ''Farbe\<newline>'') (asc ''Wei'' @ [223])) (asc ''div'')
         [(asc ''class'', asc ''sc-font-bold'')]) = asc ''Farbe''
   \<and> get_div_param
         [li_row (asc '' Leistung '') (asc ''120 kW''),
          li_row (asc ''Farbe\<newline>'') (asc ''Wei'' @ [223]),
          li_row (asc ''Farbe'') (asc ''Rot'')]
         (asc ''Farbe'') (asc ''sc-font-bold'') [] = asc ''Wei'' @ [223]
   \<and> get_tag_data (find_tag (li_row (asc '' Leistung '') (asc ''120 kW'')) (asc ''div'')
         [(asc ''class'', asc ''sc-font-bold'')]) \<noteq> asc ''Kilometer''
   \<and> get_div_param [li_row (asc '' Leistung '') (asc ''120 kW'')]
         (asc ''Kilometer'') (asc ''sc-font-bold'') [] = []"
  using get_div_param_first_match
    [of "[li_row (asc '' Leistung '') (asc ''120 kW'')]" "asc ''sc-font-bold''" "asc ''Farbe''"
        "li_row (asc ''Farbe\<newline>'') (asc ''Wei'' @ [223])" "[li_row (asc ''Farbe'') (asc ''Rot'')]" "[]"
        "[li_row (asc '' Leistung '') (asc ''120 kW'')]"]
  by (simp add: li_row_def dom_simps is_space_def)

section \<open>Numeric normalisation\<close>

text \<open>
  C2.  The normalisation does not return an integer for every input.  The pattern takes any
  one character after the first digit run, not only a separator, and the matched text goes
  to \<^verbatim>\<open>int()\<close> as it is: on \<^verbatim>\<open>"120kW"\<close> the match is \<^verbatim>\<open>"120k"\<close> and the conversion
  raises \<^verbatim>\<open>ValueError\<close>, where the first digit run alone would give 120.
\<close>

theorem convert_str_to_int_fault: "convert_str_to_int (asc ''120kW'') = Inl ValueError"
  by (simp add: number_simps)

text \<open>The three examples of the specification do hold.\<close>

lemma convert_str_to_int_examples:
  "convert_str_to_int (asc ''12.345 km'') = Inr 12345"
  "convert_str_to_int ([8364] @ asc '' 8.900'') = Inr 8900"
  "convert_str_to_int (asc ''120 kW'') = Inr 120"
  by (simp_all add: number_simps)

lemma search_number_no_digit:
  "\<forall>c\<in>set text. \<not> is_digit c \<Longrightarrow> search_number text = None"
proof -
  assume "\<forall>c\<in>set text. \<not> is_digit c"
  then have "dropWhile (\<lambda>c. \<not> is_digit c) text = []"
    by simp
  then show ?thesis
    unfolding search_number_def by (simp only: list.case)
qed

lemma convert_str_to_int_no_digit:
  "\<forall>c\<in>set text. \<not> is_digit c \<Longrightarrow> convert_str_to_int text = Inr 0"
  by (simp add: convert_str_to_int_def search_number_no_digit)

section \<open>Field extraction\<close>

text \<open>
  C1.  Extraction does not succeed on every detail page.  On a page that has the title, the
  price, the specification list and the description but no basic-data block, the search
  for that block gives \<^verbatim>\<open>None\<close>, and \<^verbatim>\<open>find_all\<close> is called on it: the extraction
  raises \<^verbatim>\<open>AttributeError\<close> and no record is made.
\<close>

theorem get_page_config_missing_block:
  "get_page_config self (Some page_without_basic_data) url = Inl AttributeError"
  by (simp add: get_page_config_def dom_simps is_space_def sample_simps)

text \<open>The same happens on a page without the specification list.\<close>

lemma get_page_config_missing_specification:
  "get_page_config self (Some page_without_specification) url = Inl AttributeError"
  by (simp add: get_page_config_def dom_simps is_space_def sample_simps)

text \<open>
  With both blocks present, absent fields take their defaults, and the page of the
  end-to-end example gives the record of the specification.
\<close>

lemma get_page_config_bare_page:
  "get_page_config self (Some bare_page) url =
     Inr \<lparr>cfg_id = page_no self, cfg_href = url, cfg_title = [], cfg_price = 0, cfg_mileage = 0,
          cfg_color = [], cfg_power = 0, cfg_description = []\<rparr>"
  by (simp add: get_page_config_def get_description_def dom_simps sample_simps number_simps)

lemma get_page_config_detail_page:
  "get_page_config self (Some detail_page) url =
     Inr \<lparr>cfg_id = page_no self, cfg_href = url, cfg_title = asc ''Renault Master'',
          cfg_price = 12500, cfg_mileage = 150000,
          cfg_color = asc ''Wei'' @ [223], cfg_power = 120,
          cfg_description = asc ''Gepflegt\<newline>\<newline>Erste Hand\<newline>Scheckheft''\<rparr>"
  by (simp add: get_page_config_def get_description_def dom_simps sample_simps number_simps
      splitlines_def is_linebreak_def)

section \<open>Page fetcher\<close>

lemmas world_simps = one_listing_world_def detail_url_def WEBSITE_URL_def WEBSITE_CATALOG_URL_def

text \<open>
  C9 fails for network failures: on a URL that gives no response the fetcher does not
  return \<^verbatim>\<open>None\<close>.
\<close>

theorem parse_page_network_failure_counterexample:
  "http_get one_listing_world (asc ''https://www.truckscout24.de/offline'') = NetworkFailure
   \<and> snd (parse_page one_listing_world (asc ''https://www.truckscout24.de/offline'')) \<noteq> Inr None"
  by (simp add: parse_page_def world_simps)

text \<open>
  C9, amended.  The fetcher returns the parsed document exactly when the response status is
  200 and returns \<^verbatim>\<open>None\<close> for every other status.  A network failure is not turned
  into a result: the exception of the request is raised to the caller.
\<close>

theorem parse_page_outcomes:
  "(http_get w url = Response status doc \<longrightarrow>
      snd (parse_page w url) = Inr (if status = 200 then Some doc else None))
   \<and> (http_get w url = NetworkFailure \<longrightarrow> snd (parse_page w url) = Inl RequestException)
   \<and> ((\<exists>d. snd (parse_page w url) = Inr (Some d)) \<longleftrightarrow> (\<exists>d. http_get w url = Response 200 d))"
  by (cases "http_get w url") (simp_all add: parse_page_def)

theorem parse_page_outcomes_witness:
  "http_get one_listing_world detail_url = Response 200 detail_page
   \<and> snd (parse_page one_listing_world detail_url) = Inr (Some detail_page)
   \<and> http_get one_listing_world (asc ''https://www.truckscout24.de/gone'') = Response 404 catalog_without_link
   \<and> snd (parse_page one_listing_world (asc ''https://www.truckscout24.de/gone'')) = Inr None
   \<and> http_get one_listing_world (asc ''https://www.truckscout24.de/offline'') = NetworkFailure
   \<and> snd (parse_page one_listing_world (asc ''https://www.truckscout24.de/offline'')) = Inl RequestException"
  using parse_page_outcomes [of one_listing_world detail_url 200 detail_page]
    parse_page_outcomes [of one_listing_world "asc ''https://www.truckscout24.de/gone''" 404 catalog_without_link]
    parse_page_outcomes [of one_listing_world "asc ''https://www.truckscout24.de/offline''"]
  by (simp add: world_simps)

section \<open>Image download\<close>

lemma str_nat_digit: "n < 10 \<Longrightarrow> str_nat n = [48 + n]"
  by (simp add: str_nat.simps)

lemma str_int_small: "str_int 1 = asc ''1''" "str_int 2 = asc ''2''" "str_int 3 = asc ''3''"
  by (simp_all add: str_int_def str_nat_digit)

lemma all_less_two: "(\<forall>i<2::nat. P i) \<longleftrightarrow> P 0 \<and> P 1"
  by (auto simp: less_2_cases_iff)

lemma upt_two: "[0 ..< 2] = [0, 1]"
  by (simp add: upt_rec)

lemma gallery_detail_page:
  "gallery detail_page =
     [gallery_img (asc ''https://img.example.com/a/1.jpg''),
      gallery_img (asc ''https://img.example.com/a/2.png'')]"
  by (simp add: find_all_def detail_page_def title_h1_def price_h2_def basic_data_div_def
      specification_div_def description_div_def li_row_def gallery_img_def)

lemma download_loop_events:
  "\<forall>e\<in>set (fst (download_loop w dir images js)). \<exists>url i. e = Retrieve url (image_file dir i url)"
proof (induction js)
  case Nil
  show ?case by simp
next
  case (Cons j js)
  then show ?case
    by (cases "download_loop w dir images js")
       (auto simp: Let_def split: option.splits)
qed

lemma download_loop_count:
  "length (retrievals (fst (download_loop w dir images js))) \<le> length js"
proof (induction js)
  case Nil
  show ?case by simp
next
  case (Cons j js)
  then show ?case
    by (cases "download_loop w dir images js")
       (auto simp: Let_def split: option.splits)
qed

lemma download_loop_all:
  assumes "\<forall>i\<in>set js. i < length images \<and>
             (\<exists>url. images ! i = Some url \<and> url_retrieve w url (image_file dir i url))"
  shows "download_loop w dir images js =
           (map (\<lambda>i. Retrieve (the (images ! i)) (image_file dir i (the (images ! i)))) js, Inr ())"
  using assms
proof (induction js)
  case Nil
  show ?case by simp
next
  case (Cons j js)
  then show ?case
    by (auto simp: Let_def)
qed

lemma image_num_min:
  "(if int n \<ge> cap then cap else int n) = min cap (int n)"
  by (simp add: min_def)

lemma slice_to_nth:
  "i < nat (min cap (int (length xs))) \<Longrightarrow>
     i < length (slice_to xs (min cap (int (length xs)))) \<and> slice_to xs (min cap (int (length xs))) ! i = xs ! i"
  by (auto simp: slice_to_def)

lemma download_images_unfold:
  "download_images w self (Some pg) cap =
     (MkDir (listing_dir self) #
        fst (download_loop w (listing_dir self)
               (map (\<lambda>img. attr_get img (asc ''data-src''))
                  (slice_to (gallery pg) (min cap (int (length (gallery pg))))))
               [0 ..< nat (min cap (int (length (gallery pg))))]),
      snd (download_loop w (listing_dir self)
               (map (\<lambda>img. attr_get img (asc ''data-src''))
                  (slice_to (gallery pg) (min cap (int (length (gallery pg))))))
               [0 ..< nat (min cap (int (length (gallery pg))))]))"
  by (simp add: download_images_def Let_def image_num_min split: prod.splits)

text \<open>
  C7 fails when a download cannot be made: with one gallery image that has no
  \<^verbatim>\<open>data-src\<close> attribute, no image is requested, and the minimum of the cap 3 and the
  gallery size is 1.
\<close>

theorem download_images_count_counterexample:
  "length (retrievals (fst (download_images one_listing_world (snd (init (asc ''data'')))
        (Some page_img_without_src) 3)))
   \<noteq> nat (min 3 (int (length (find_all page_img_without_src (asc ''img'')
          [(asc ''class'', asc ''gallery-picture__image sc-lazy-image lazyload'')]))))"
  by (simp add: download_images_def init_def slice_to_def find_all_def page_img_without_src_def
      one_listing_world_def str_int_small)

text \<open>
  C7, amended.  Let \<open>k\<close> be the minimum of the cap and the number of gallery images (no
  image when that is negative).  In every case the downloader starts at most \<open>k\<close>
  retrievals.  When each of the first \<open>k\<close> gallery images has the \<^verbatim>\<open>data-src\<close>
  attribute and each retrieval succeeds, it returns normally after exactly \<open>k\<close>
  retrievals, of the first \<open>k\<close> images in document order, the \<open>n\<close>-th one saved as
  \<^verbatim>\<open>image_<n>.<ext>\<close> in the directory of the listing, for \<open>n\<close> from 1 to \<open>k\<close>.
\<close>

theorem download_images_exact:
  "length (retrievals (fst (download_images w self (Some pg) cap)))
     \<le> nat (min cap (int (length (gallery pg))))
   \<and> ((\<forall>i < nat (min cap (int (length (gallery pg)))).
          \<exists>url. attr_get (gallery pg ! i) (asc ''data-src'') = Some url \<and>
                url_retrieve w url (image_file (listing_dir self) i url))
      \<longrightarrow> download_images w self (Some pg) cap =
            (MkDir (listing_dir self) #
               map (\<lambda>i. Retrieve (the (attr_get (gallery pg ! i) (asc ''data-src'')))
                          (image_file (listing_dir self) i
                             (the (attr_get (gallery pg ! i) (asc ''data-src'')))))
                   [0 ..< nat (min cap (int (length (gallery pg))))],
             Inr ()))"
proof -
  define k where "k = min cap (int (length (gallery pg)))"
  define images where
    "images = map (\<lambda>img. attr_get img (asc ''data-src'')) (slice_to (gallery pg) k)"
  define dir where "dir = listing_dir self"
  define src where "src = (\<lambda>i. attr_get (gallery pg ! i) (asc ''data-src''))"
  have unfold: "download_images w self (Some pg) cap =
      (MkDir dir # fst (download_loop w dir images [0 ..< nat k]),
       snd (download_loop w dir images [0 ..< nat k]))"
    unfolding k_def images_def dir_def by (rule download_images_unfold)
  have count: "length (retrievals (fst (download_images w self (Some pg) cap))) \<le> nat k"
    using download_loop_count [of w dir images "[0 ..< nat k]"] by (simp add: unfold)
  have nth: "i < length images \<and> images ! i = src i" if "i < nat k" for i
    using that slice_to_nth [of i cap "gallery pg"] unfolding images_def k_def src_def by simp
  have all: "download_images w self (Some pg) cap =
      (MkDir dir # map (\<lambda>i. Retrieve (the (src i)) (image_file dir i (the (src i)))) [0 ..< nat k],
       Inr ())"
    if ok: "\<forall>i < nat k. \<exists>url. src i = Some url \<and> url_retrieve w url (image_file dir i url)"
  proof -
    have "\<forall>i\<in>set [0 ..< nat k]. i < length images \<and>
             (\<exists>url. images ! i = Some url \<and> url_retrieve w url (image_file dir i url))"
      using ok nth by auto
    then have "download_loop w dir images [0 ..< nat k] =
        (map (\<lambda>i. Retrieve (the (images ! i)) (image_file dir i (the (images ! i)))) [0 ..< nat k],
         Inr ())"
      by (rule download_loop_all)
    moreover have
      "map (\<lambda>i. Retrieve (the (images ! i)) (image_file dir i (the (images ! i)))) [0 ..< nat k]
       = map (\<lambda>i. Retrieve (the (src i)) (image_file dir i (the (src i)))) [0 ..< nat k]"
      using nth by (intro map_cong) auto
    ultimately show ?thesis
      by (simp add: unfold)
  qed
  from count all show ?thesis
    unfolding k_def dir_def src_def by blast
qed

theorem download_images_exact_witness:
  "length (gallery detail_page) = 2
   \<and> download_images one_listing_world (snd (init (asc ''data''))) (Some detail_page) 3 =
       ([MkDir (asc ''data/1''),
         Retrieve (asc ''https://img.example.com/a/1.jpg'') (asc ''data/1/image_1.jpg''),
         Retrieve (asc ''https://img.example.com/a/2.png'') (asc ''data/1/image_2.png'')],
        Inr ())"
proof -
  have ok: "\<forall>i < nat (min 3 (int (length (gallery detail_page)))).
          \<exists>url. attr_get (gallery detail_page ! i) (asc ''data-src'') = Some url \<and>
                url_retrieve one_listing_world url
                  (image_file (listing_dir (snd (init (asc ''data'')))) i url)"
    unfolding gallery_detail_page
    by (simp add: gallery_img_def one_listing_world_def all_less_two)
  from ok download_images_exact [of one_listing_world "snd (init (asc ''data''))" detail_page 3]
  have "download_images one_listing_world (snd (init (asc ''data''))) (Some detail_page) 3 =
            (MkDir (listing_dir (snd (init (asc ''data'')))) #
               map (\<lambda>i. Retrieve (the (attr_get (gallery detail_page ! i) (asc ''data-src'')))
                          (image_file (listing_dir (snd (init (asc ''data'')))) i
                             (the (attr_get (gallery detail_page ! i) (asc ''data-src'')))))
                   [0 ..< nat (min 3 (int (length (gallery detail_page))))],
             Inr ())"
    by blast
  then show ?thesis
    unfolding gallery_detail_page
    by (simp add: gallery_img_def init_def str_int_small upt_two)
qed

text \<open>
  C8.  The extension is the text after the last dot of the whole URL, not of the file name
  in its path: for a URL with a query string \<^verbatim>\<open>?v=1.2\<close> after \<^verbatim>\<open>photo.jpg\<close> the image
  is saved as \<^verbatim>\<open>image_1.2\<close>.
\<close>

theorem download_images_query_url:
  "download_images one_listing_world (snd (init (asc ''data''))) (Some page_query_url) 3 =
     ([MkDir (asc ''data/1''),
       Retrieve (asc ''https://img.example.com/a/photo.jpg?v=1.2'') (asc ''data/1/image_1.2'')],
      Inr ())"
  by (simp add: download_images_def init_def slice_to_def find_all_def page_query_url_def gallery_img_def
      one_listing_world_def str_int_small)

text \<open>
  C10.  The first effect of the downloader is the creation of the directory of the listing,
  named by the page number, which is the id of the record; everything after it is a
  retrieval into a file of that directory.  With an empty gallery the creation of the
  directory is the only effect and the downloader returns normally.
\<close>

theorem download_images_dir_first:
  "(\<exists>tr. fst (download_images w self (Some pg) cap) = MkDir (listing_dir self) # tr \<and>
         (\<forall>e\<in>set tr. \<exists>url i. e = Retrieve url (image_file (listing_dir self) i url)))
   \<and> (gallery pg = [] \<longrightarrow>
         download_images w self (Some pg) cap = ([MkDir (listing_dir self)], Inr ()))"
proof -
  define k where "k = min cap (int (length (gallery pg)))"
  define images where
    "images = map (\<lambda>img. attr_get img (asc ''data-src'')) (slice_to (gallery pg) k)"
  define dir where "dir = listing_dir self"
  have unfold: "download_images w self (Some pg) cap =
      (MkDir dir # fst (download_loop w dir images [0 ..< nat k]),
       snd (download_loop w dir images [0 ..< nat k]))"
    unfolding k_def images_def dir_def by (rule download_images_unfold)
  have first: "\<exists>tr. fst (download_images w self (Some pg) cap) = MkDir dir # tr \<and>
         (\<forall>e\<in>set tr. \<exists>url i. e = Retrieve url (image_file dir i url))"
    using download_loop_events [of w dir images "[0 ..< nat k]"] by (simp add: unfold)
  have none: "download_images w self (Some pg) cap = ([MkDir dir], Inr ())" if "gallery pg = []"
    using that by (simp add: unfold k_def)
  from first none show ?thesis
    unfolding dir_def by blast
qed


theorem download_images_dir_first_witness:
  "gallery bare_page = []
   \<and> download_images one_listing_world (snd (init (asc ''data''))) (Some bare_page) 3 =
       ([MkDir (asc ''data/1'')], Inr ())"
  using download_images_dir_first [of one_listing_world "snd (init (asc ''data''))" bare_page 3]
  by (simp add: find_all_def bare_page_def init_def str_int_small)

section \<open>The JSON file\<close>

lemma hex_val_hex_char: "d < 16 \<Longrightarrow> hex_val (hex_char d) = Some d"
  by (auto simp: hex_val_def hex_char_def)

lemma hex4_control: "c < 32 \<Longrightarrow> hex4 48 48 (hex_char (c div 16)) (hex_char (c mod 16)) = Some c"
proof -
  assume c: "c < 32"
  then have "c div 16 < 16" by simp
  then have a: "hex_val (hex_char (c div 16)) = Some (c div 16)"
    by (rule hex_val_hex_char)
  have b: "hex_val (hex_char (c mod 16)) = Some (c mod 16)"
    by (rule hex_val_hex_char) simp
  have z: "hex_val 48 = Some 0"
    by (simp add: hex_val_def)
  show ?thesis
    by (simp add: hex4_def a b z)
qed

lemma scan_string_unicode_low:
  assumes "hex4 a b c d = Some uni" and "uni < 55296"
  shows "scan_string (92 # 117 # a # b # c # d # rest) =
           map_option (\<lambda>(s, t). (uni # s, t)) (scan_string rest)"
proof -
  have "unicode_escape (a # b # c # d # rest) = Some (uni, rest)"
    using assms by (simp add: unicode_escape_def take_hex4_def)
  then show ?thesis by simp
qed

lemma scan_string_escape:
  "scan_string (escape_char c @ rest) = map_option (\<lambda>(s, t). (c # s, t)) (scan_string rest)"
proof (cases "c < 32 \<and> c \<notin> {8, 9, 10, 12, 13}")
  case True
  then have e: "escape_char c = [92, 117, 48, 48, hex_char (c div 16), hex_char (c mod 16)]"
    by (auto simp: escape_char_def)
  have "hex4 48 48 (hex_char (c div 16)) (hex_char (c mod 16)) = Some c"
    using True by (intro hex4_control) simp
  moreover have "c < 55296" using True by simp
  ultimately show ?thesis
    unfolding e using scan_string_unicode_low by simp
next
  case False
  then show ?thesis
    by (auto simp: escape_char_def unescape_def)
qed

lemma scan_string_encoded:
  "scan_string (concat (map escape_char s) @ 34 # rest) = Some (s, rest)"
  by (induction s) (simp_all add: scan_string_escape del: scan_string.simps(2), simp)

lemma str_nat_step: "10 \<le> n \<Longrightarrow> str_nat n = str_nat (n div 10) @ [48 + n mod 10]"
  by (subst str_nat.simps) simp

lemma str_nat_ascii: "\<forall>c\<in>set (str_nat n). ascii_digit c"
proof (induction n rule: str_nat.induct)
  case (1 n)
  show ?case
  proof (cases "n < 10")
    case True
    then show ?thesis by (simp add: str_nat_digit ascii_digit_def)
  next
    case False
    with 1 show ?thesis
      by (simp add: str_nat_step ascii_digit_def)
  qed
qed

lemma digits_value_snoc: "digits_value (ds @ [d]) = 10 * digits_value ds + (d - 48)"
  by (simp add: digits_value_def)

lemma str_nat_value: "digits_value (str_nat n) = n"
proof (induction n rule: str_nat.induct)
  case (1 n)
  show ?case
  proof (cases "n < 10")
    case True
    then show ?thesis by (simp add: str_nat_digit digits_value_def)
  next
    case False
    with 1 show ?thesis
      by (simp add: str_nat_step digits_value_snoc)
  qed
qed

lemma str_nat_head: "\<exists>c cs. str_nat n = c # cs \<and> ascii_digit c \<and> (c = 48 \<longrightarrow> n = 0)"
proof (induction n rule: str_nat.induct)
  case (1 n)
  show ?case
  proof (cases "n < 10")
    case True
    then show ?thesis by (simp add: str_nat_digit ascii_digit_def)
  next
    case False
    then have "0 < n div 10" by simp
    with 1 False obtain c cs where "str_nat (n div 10) = c # cs" "ascii_digit c" "c \<noteq> 48"
      by auto
    with False show ?thesis
      by (simp add: str_nat_step)
  qed
qed

lemma ends_value_no_digit: "ends_value rest \<Longrightarrow> dropWhile ascii_digit rest = rest"
  by (cases rest) (auto simp: ends_value_def ascii_digit_def)

lemma ends_value_no_digit_take: "ends_value rest \<Longrightarrow> takeWhile ascii_digit rest = []"
  by (cases rest) (auto simp: ends_value_def ascii_digit_def)

lemma ends_value_no_float: "ends_value rest \<Longrightarrow> \<not> float_follows rest"
  by (cases rest) (auto simp: ends_value_def float_follows_def)

lemma scan_nat_str_nat:
  assumes "ends_value rest"
  shows "scan_nat (str_nat n @ rest) = Some (n, rest)"
proof -
  obtain c cs where s: "str_nat n = c # cs" and d: "ascii_digit c" and z: "c = 48 \<longrightarrow> n = 0"
    using str_nat_head by blast
  show ?thesis
  proof (cases "c = 48")
    case True
    with z have "n = 0" by simp
    then show ?thesis by (simp add: str_nat_digit scan_nat_def)
  next
    case False
    have all: "\<forall>x\<in>set (c # cs). ascii_digit x"
      using str_nat_ascii [of n] s by simp
    have t: "takeWhile ascii_digit ((c # cs) @ rest) = c # cs"
      using all ends_value_no_digit_take [OF assms] by simp
    have dr: "dropWhile ascii_digit ((c # cs) @ rest) = rest"
      using all ends_value_no_digit [OF assms] by simp
    have "scan_nat ((c # cs) @ rest) =
        Some (digits_value (takeWhile ascii_digit ((c # cs) @ rest)),
              dropWhile ascii_digit ((c # cs) @ rest))"
      using False d by (simp add: scan_nat_def)
    then show ?thesis
      using str_nat_value [of n] unfolding t dr s by simp
  qed
qed

lemma scan_int_str_int:
  assumes "ends_value rest"
  shows "scan_int (str_int i @ rest) = Some (i, rest)"
proof (cases "i < 0")
  case True
  then show ?thesis
    using scan_nat_str_nat [OF assms, of "nat (- i)"] ends_value_no_float [OF assms]
    by (simp add: scan_int_def str_int_def)
next
  case False
  obtain c cs where s: "str_nat (nat i) = c # cs" and d: "ascii_digit c"
    using str_nat_head by blast
  then have "c \<noteq> 45" by (auto simp: ascii_digit_def)
  with False s show ?thesis
    using scan_nat_str_nat [OF assms, of "nat i"] ends_value_no_float [OF assms]
    by (simp add: scan_int_def str_int_def)
qed

lemma fuel_pos: "0 < fuel v"
  by (cases v) simp_all

lemma str_int_head: "\<exists>c cs. str_int i = c # cs \<and> (c = 45 \<or> ascii_digit c)"
  using str_nat_head [of "nat i"] by (auto simp: str_int_def)

lemma json_dumps_head:
  "\<exists>c cs. json_dumps v = c # cs \<and> (c = 34 \<or> c = 91 \<or> c = 123 \<or> c = 45 \<or> ascii_digit c)"
proof (cases v)
  case (JInt i)
  then show ?thesis using str_int_head [of i] by auto
qed (simp_all add: encode_basestring_def)

lemma skip_ws_json_dumps: "skip_ws (json_dumps v @ rest) = json_dumps v @ rest"
  using json_dumps_head [of v] by (auto simp: skip_ws_def is_json_ws_def ascii_digit_def)

lemma skip_ws_ends: "ends_value rest \<Longrightarrow> skip_ws rest = rest"
  by (cases rest) (auto simp: skip_ws_def is_json_ws_def ends_value_def)

lemma parse_value_int:
  assumes "ends_value rest"
  shows "parse_value (Suc n) (str_int i @ rest) = Some (JInt i, rest)"
proof -
  obtain c cs where s: "str_int i = c # cs" and c: "c = 45 \<or> ascii_digit c"
    using str_int_head by blast
  then have ne: "c \<noteq> 34" "c \<noteq> 91" "c \<noteq> 123"
    by (auto simp: ascii_digit_def)
  have "scan_int ((c # cs) @ rest) = Some (i, rest)"
    using scan_int_str_int [OF assms, of i] s by simp
  then show ?thesis
    unfolding s using ne by simp
qed

lemma parse_value_str:
  "parse_value (Suc n) (encode_basestring s @ rest) = Some (JStr s, rest)"
  by (simp add: encode_basestring_def scan_string_encoded)

lemma parse_array_elems:
  assumes "\<forall>x\<in>set xs. \<forall>n rest. fuel x \<le> n \<longrightarrow> ends_value rest \<longrightarrow>
             parse_value n (json_dumps x @ rest) = Some (x, rest)"
    and "xs \<noteq> []" and "Suc (sum_list (map fuel xs)) \<le> n"
  shows "parse_array n (join (asc '', '') (map json_dumps xs) @ 93 # rest) = Some (xs, rest)"
  using assms
proof (induction xs arbitrary: n)
  case Nil
  then show ?case by simp
next
  case (Cons x xs)
  from Cons.prems(3) obtain m where n: "n = Suc m" and m: "fuel x + sum_list (map fuel xs) \<le> m"
    by (cases n) auto
  have px: "\<And>rest. ends_value rest \<Longrightarrow> parse_value m (json_dumps x @ rest) = Some (x, rest)"
    using Cons.prems(1) m by simp
  show ?case
  proof (cases xs)
    case Nil
    have "parse_value m (json_dumps x @ 93 # rest) = Some (x, 93 # rest)"
      by (rule px) (simp add: ends_value_def)
    then show ?thesis
      unfolding n Nil by (simp add: skip_ws_def is_json_ws_def)
  next
    case (Cons y ys)
    let ?tail = "join (asc '', '') (map json_dumps (y # ys)) @ 93 # rest"
    have tail_head: "skip_ws ?tail = ?tail"
      using skip_ws_json_dumps [of y] by (cases ys) simp_all
    have "parse_value m (json_dumps x @ 44 # 32 # ?tail) = Some (x, 44 # 32 # ?tail)"
      by (rule px) (simp add: ends_value_def)
    moreover have "parse_array m ?tail = Some (y # ys, rest)"
      using Cons.IH [of m] Cons.prems(1) m fuel_pos [of x] unfolding Cons
      by simp
    moreover have "skip_ws (32 # ?tail) = ?tail"
      using tail_head by (simp add: skip_ws_def is_json_ws_def)
    ultimately show ?thesis
      unfolding n Cons by (simp add: skip_ws_def is_json_ws_def)
  qed
qed

lemma parse_object_members:
  assumes "\<forall>kv\<in>set kvs. \<forall>n rest. fuel (snd kv) \<le> n \<longrightarrow> ends_value rest \<longrightarrow>
             parse_value n (json_dumps (snd kv) @ rest) = Some (snd kv, rest)"
    and "kvs \<noteq> []" and "Suc (sum_list (map (\<lambda>kv. fuel (snd kv)) kvs)) \<le> n"
  shows "parse_object n
           (join (asc '', '')
              (map (\<lambda>kv. encode_basestring (fst kv) @ asc '': '' @ json_dumps (snd kv)) kvs) @
            125 # rest) = Some (kvs, rest)"
  using assms
proof (induction kvs arbitrary: n)
  case Nil
  then show ?case by simp
next
  case (Cons kv kvs)
  obtain k v where kv: "kv = (k, v)" by (cases kv)
  from Cons.prems(3) obtain m where n: "n = Suc m" and
    m: "fuel v + sum_list (map (\<lambda>kv. fuel (snd kv)) kvs) \<le> m"
    unfolding kv by (cases n) auto
  have pv: "\<And>rest. ends_value rest \<Longrightarrow> parse_value m (json_dumps v @ rest) = Some (v, rest)"
    using Cons.prems(1) m unfolding kv by simp
  have key: "\<And>more. scan_string (concat (map escape_char k) @ 34 # 58 # 32 # json_dumps v @ more)
      = Some (k, 58 # 32 # json_dumps v @ more)"
    by (rule scan_string_encoded)
  have colon: "\<And>more. skip_ws (58 # 32 # json_dumps v @ more) = 58 # 32 # json_dumps v @ more"
    by (simp add: skip_ws_def is_json_ws_def)
  have blank: "\<And>more. skip_ws (32 # json_dumps v @ more) = json_dumps v @ more"
    using skip_ws_json_dumps [of v] by (simp add: skip_ws_def is_json_ws_def)
  show ?case
  proof (cases kvs)
    case Nil
    have "parse_value m (json_dumps v @ 125 # rest) = Some (v, 125 # rest)"
      by (rule pv) (simp add: ends_value_def)
    then show ?thesis
      unfolding n Nil kv
      using key [of "125 # rest"] colon [of "125 # rest"] blank [of "125 # rest"]
      by (simp add: encode_basestring_def skip_ws_ends ends_value_def)
  next
    case (Cons kv' kvs')
    let ?tail = "join (asc '', '')
              (map (\<lambda>kv. encode_basestring (fst kv) @ asc '': '' @ json_dumps (snd kv)) (kv' # kvs')) @
            125 # rest"
    have tail_head: "skip_ws (32 # ?tail) = ?tail"
      by (cases kvs') (simp_all add: skip_ws_def is_json_ws_def encode_basestring_def)
    have "parse_value m (json_dumps v @ 44 # 32 # ?tail) = Some (v, 44 # 32 # ?tail)"
      by (rule pv) (simp add: ends_value_def)
    moreover have "parse_object m ?tail = Some (kv' # kvs', rest)"
      using Cons.IH [of m] Cons.prems(1) m fuel_pos [of v] unfolding Cons
      by simp
    ultimately show ?thesis
      unfolding n Cons kv
      using key [of "44 # 32 # ?tail"] colon [of "44 # 32 # ?tail"] blank [of "44 # 32 # ?tail"]
        tail_head
      by (simp add: encode_basestring_def skip_ws_ends ends_value_def)
  qed
qed

lemma parse_value_json_dumps:
  "fuel v \<le> n \<Longrightarrow> ends_value rest \<Longrightarrow> parse_value n (json_dumps v @ rest) = Some (v, rest)"
proof (induction v arbitrary: n rest)
  case (JInt i)
  then obtain m where "n = Suc m" by (cases n) auto
  with JInt show ?case by (simp add: parse_value_int)
next
  case (JStr s)
  then obtain m where "n = Suc m" by (cases n) auto
  then show ?case using parse_value_str [of m s rest] by simp
next
  case (JArr xs)
  from JArr.prems obtain m where n: "n = Suc m" and m: "Suc (sum_list (map fuel xs)) \<le> m"
    by (cases n) auto
  show ?case
  proof (cases xs)
    case Nil
    then show ?thesis unfolding n by (simp add: skip_ws_def is_json_ws_def)
  next
    case (Cons y ys)
    obtain c cs where h: "json_dumps y = c # cs" and
      c: "c = 34 \<or> c = 91 \<or> c = 123 \<or> c = 45 \<or> ascii_digit c"
      using json_dumps_head by blast
    let ?body = "join (asc '', '') (map json_dumps xs) @ 93 # rest"
    have body: "parse_array m ?body = Some (xs, rest)"
      using JArr.IH m Cons by (intro parse_array_elems) auto
    obtain t where bh: "?body = c # t"
      unfolding Cons using h by (cases ys) simp_all
    have sk: "skip_ws (c # t) = c # t"
      using c by (auto simp: skip_ws_def is_json_ws_def ascii_digit_def)
    have c93: "c \<noteq> 93"
      using c by (auto simp: ascii_digit_def)
    have "parse_value (Suc m) (91 # ?body) = Some (JArr xs, rest)"
      unfolding bh using sk c93 body [unfolded bh] by simp
    then show ?thesis
      unfolding n by simp
  qed
next
  case (JObj kvs)
  from JObj.prems obtain m where n: "n = Suc m" and
    m: "Suc (sum_list (map (\<lambda>kv. fuel (snd kv)) kvs)) \<le> m"
    by (cases n) auto
  show ?case
  proof (cases kvs)
    case Nil
    then show ?thesis unfolding n by (simp add: skip_ws_def is_json_ws_def)
  next
    case (Cons kv kvs')
    let ?body = "join (asc '', '')
              (map (\<lambda>kv. encode_basestring (fst kv) @ asc '': '' @ json_dumps (snd kv)) kvs) @
            125 # rest"
    have ih: "\<forall>kv\<in>set kvs. \<forall>n rest. fuel (snd kv) \<le> n \<longrightarrow> ends_value rest \<longrightarrow>
             parse_value n (json_dumps (snd kv) @ rest) = Some (snd kv, rest)"
    proof (intro ballI allI impI)
      fix p n rest
      assume p: "p \<in> set kvs" "fuel (snd p) \<le> n" "ends_value rest"
      have "snd p \<in> Basic_BNFs.snds p"
        by (cases p) simp
      from JObj.IH [OF p(1) this p(2) p(3)]
      show "parse_value n (json_dumps (snd p) @ rest) = Some (snd p, rest)" .
    qed
    have body: "parse_object m ?body = Some (kvs, rest)"
      using ih m Cons by (intro parse_object_members) auto
    obtain t where bh: "?body = 34 # t"
      unfolding Cons by (cases kvs') (simp_all add: encode_basestring_def)
    have "parse_value (Suc m) (123 # ?body) = Some (JObj kvs, rest)"
      unfolding bh using body [unfolded bh] by (simp add: skip_ws_def is_json_ws_def)
    then show ?thesis
      unfolding n by simp
  qed
qed

lemma length_join_ge: "sum_list (map length xs) \<le> length (join sep xs)"
  by (induction sep xs rule: join.induct) simp_all

lemma str_int_nonempty: "0 < length (str_int i)"
  using str_int_head [of i] by auto

lemma fuel_le_length: "fuel v \<le> length (json_dumps v)"
proof (induction v)
  case (JInt i)
  show ?case using str_int_nonempty [of i] by (simp add: Suc_le_eq)
next
  case (JStr s)
  show ?case by (simp add: encode_basestring_def)
next
  case (JArr xs)
  then have "sum_list (map fuel xs) \<le> sum_list (map (\<lambda>x. length (json_dumps x)) xs)"
    by (intro sum_list_mono) simp
  also have "\<dots> = sum_list (map length (map json_dumps xs))"
    by (simp add: comp_def)
  also have "\<dots> \<le> length (join (asc '', '') (map json_dumps xs))"
    by (rule length_join_ge)
  finally show ?case by simp
next
  case (JObj kvs)
  let ?entry = "\<lambda>kv. encode_basestring (fst kv) @ asc '': '' @ json_dumps (snd kv)"
  have "sum_list (map (\<lambda>kv. fuel (snd kv)) kvs) \<le> sum_list (map (\<lambda>kv. length (?entry kv)) kvs)"
  proof (intro sum_list_mono)
    fix p assume p: "p \<in> set kvs"
    have "snd p \<in> Basic_BNFs.snds p" by (cases p) simp
    from JObj.IH [OF p this] show "fuel (snd p) \<le> length (?entry p)" by simp
  qed
  also have "\<dots> = sum_list (map length (map ?entry kvs))"
    by (simp add: comp_def)
  also have "\<dots> \<le> length (join (asc '', '') (map ?entry kvs))"
    by (rule length_join_ge)
  finally show ?case by simp
qed

lemma json_loads_json_dumps: "json_loads (json_dumps v) = Some v"
proof -
  have "parse_value (Suc (length (json_dumps v))) (json_dumps v @ []) = Some (v, [])"
    using fuel_le_length [of v] by (intro parse_value_json_dumps) (simp_all add: ends_value_def)
  then show ?thesis
    using skip_ws_json_dumps [of v "[]"] by (simp add: json_loads_def skip_ws_def)
qed

lemma utf8_decode_two:
  assumes "2 \<le> a" "a < 32" "b < 64"
  shows "utf8_decode ([192 + a, 128 + b] @ rest) =
           map_option (\<lambda>s. (a * 64 + b) # s) (utf8_decode rest)"
  using assms by (simp add: continuation_def)

lemma utf8_decode_three:
  assumes "a < 16" "b < 64" "d < 64" "2048 \<le> a * 4096 + b * 64 + d"
    and "\<not> (55296 \<le> a * 4096 + b * 64 + d \<and> a * 4096 + b * 64 + d \<le> 57343)"
  shows "utf8_decode ([224 + a, 128 + b, 128 + d] @ rest) =
           map_option (\<lambda>s. (a * 4096 + b * 64 + d) # s) (utf8_decode rest)"
  using assms by (simp add: continuation_def Let_def)

lemma utf8_decode_four:
  assumes "a < 5" "b < 64" "d < 64" "e < 64" "65536 \<le> a * 262144 + b * 4096 + d * 64 + e"
    and "a * 262144 + b * 4096 + d * 64 + e < 1114112"
  shows "utf8_decode ([240 + a, 128 + b, 128 + d, 128 + e] @ rest) =
           map_option (\<lambda>s. (a * 262144 + b * 4096 + d * 64 + e) # s) (utf8_decode rest)"
  using assms by (simp add: continuation_def Let_def)

lemma split_64: "(c::nat) div 64 * 64 + c mod 64 = c"
  by simp

lemma two_level: "(q::nat) div 64 * (64 * k) + q mod 64 * k = q * k"
proof -
  have "q * k = (q div 64 * 64 + q mod 64) * k"
    by simp
  also have "\<dots> = q div 64 * (64 * k) + q mod 64 * k"
    by (simp only: add_mult_distrib mult.assoc)
  finally show ?thesis by simp
qed

lemma split_4096: "(c::nat) div 4096 * 4096 + c div 64 mod 64 * 64 + c mod 64 = c"
proof -
  have "c div 4096 = c div 64 div 64"
    by (simp add: div_mult2_eq [symmetric])
  then have "c div 4096 * 4096 + c div 64 mod 64 * 64 = c div 64 * 64"
    using two_level [of "c div 64" 64] by simp
  then show ?thesis
    by simp
qed

lemma split_262144:
  "(c::nat) div 262144 * 262144 + c div 4096 mod 64 * 4096 + c div 64 mod 64 * 64 + c mod 64 = c"
proof -
  have "c div 262144 = c div 4096 div 64"
    by (simp add: div_mult2_eq [symmetric])
  then have "c div 262144 * 262144 + c div 4096 mod 64 * 4096 = c div 4096 * 4096"
    using two_level [of "c div 4096" 4096] by simp
  then show ?thesis
    using split_4096 [of c] by simp
qed

lemma utf8_decode_char:
  assumes "utf8_char c = Some bs"
  shows "utf8_decode (bs @ rest) = map_option (\<lambda>s. c # s) (utf8_decode rest)"
proof -
  consider "c < 128" | "128 \<le> c \<and> c < 2048" | "2048 \<le> c \<and> c < 65536" | "65536 \<le> c"
    by linarith
  then show ?thesis
  proof cases
    case 1
    with assms show ?thesis by (auto simp: utf8_char_def)
  next
    case 2
    then have bs: "bs = [192 + c div 64, 128 + c mod 64]"
      using assms by (auto simp: utf8_char_def)
    have "128 div 64 \<le> c div 64"
      using 2 by (intro div_le_mono) simp
    then have d: "2 \<le> c div 64" by simp
    have e: "c div 64 < 32"
      using 2 by (intro less_mult_imp_div_less) simp
    show ?thesis
      unfolding bs using utf8_decode_two [OF d e, of "c mod 64" rest] split_64 [of c] by simp
  next
    case 3
    then have ns: "\<not> (55296 \<le> c \<and> c \<le> 57343)" and
      bs: "bs = [224 + c div 4096, 128 + c div 64 mod 64, 128 + c mod 64]"
      using assms by (auto simp: utf8_char_def split: if_splits)
    have d: "c div 4096 < 16"
      using 3 by (intro less_mult_imp_div_less) simp
    show ?thesis
      unfolding bs
      using utf8_decode_three [OF d, of "c div 64 mod 64" "c mod 64" rest] ns 3
      unfolding split_4096 by simp
  next
    case 4
    then have lt: "c < 1114112" and
      bs: "bs = [240 + c div 262144, 128 + c div 4096 mod 64, 128 + c div 64 mod 64, 128 + c mod 64]"
      using assms by (auto simp: utf8_char_def split: if_splits)
    have d: "c div 262144 < 5"
      using lt by (intro less_mult_imp_div_less) simp
    show ?thesis
      unfolding bs
      using utf8_decode_four [OF d, of "c div 4096 mod 64" "c div 64 mod 64" "c mod 64" rest] lt 4
      unfolding split_262144 by simp
  qed
qed

lemma utf8_decode_encode: "utf8_encode s = Some bs \<Longrightarrow> utf8_decode bs = Some s"
proof (induction s arbitrary: bs)
  case Nil
  then show ?case by simp
next
  case (Cons c s)
  then obtain b r where b: "utf8_char c = Some b" and r: "utf8_encode s = Some r" and
    bs: "bs = b @ r"
    by (auto split: option.splits)
  from Cons.IH [OF r] utf8_decode_char [OF b, of r] show ?case
    unfolding bs by simp
qed

lemma config_dict_inject: "config_dict c = config_dict c' \<Longrightarrow> c = c'"
  by (cases c, cases c') (simp add: config_dict_def)

lemma data_dict_inject: "data_dict ads = data_dict ads' \<Longrightarrow> ads = ads'"
proof -
  assume "data_dict ads = data_dict ads'"
  then have "map config_dict ads = map config_dict ads'"
    by (simp add: data_dict_def)
  moreover have "inj config_dict"
    by (rule injI) (rule config_dict_inject)
  ultimately show ?thesis
    by (simp add: inj_map_eq_map)
qed

lemma encode_basestring_plain:
  "\<forall>c\<in>set s. 32 \<le> c \<and> c \<noteq> 34 \<and> c \<noteq> 92 \<Longrightarrow> encode_basestring s = [34] @ s @ [34]"
proof -
  assume a: "\<forall>c\<in>set s. 32 \<le> c \<and> c \<noteq> 34 \<and> c \<noteq> 92"
  then have "concat (map escape_char s) = s"
    by (induction s) (auto simp: escape_char_def)
  then show ?thesis
    by (simp add: encode_basestring_def)
qed

lemma dumped_eszett_record: "dumped_bytes (data_dict [eszett_record]) = Some eszett_bytes"
  by (simp add: dumped_bytes_def data_dict_def config_dict_def eszett_record_def eszett_bytes_def
      encode_basestring_def escape_char_def str_int_def str_nat_digit utf8_char_def)

section \<open>The driver\<close>

lemma get_page_config_id_href:
  "get_page_config self page url = Inr c \<Longrightarrow> cfg_id c = page_no self \<and> cfg_href c = url"
  unfolding get_page_config_def Let_def
  by (auto split: option.splits sum.splits)

lemma get_page_config_page:
  "get_page_config self page url = Inr c \<Longrightarrow> \<exists>pg. page = Some pg"
  unfolding get_page_config_def by (cases page) simp_all

lemma parse_page_events: "fst (parse_page w url) = [Get url]"
  by (simp add: parse_page_def split: http_outcome.splits)

lemma iteration_pass:
  assumes "iteration w s = (tr, Inr (Some s'))"
  shows "\<exists>cp tag href pg c rest.
           http_get w (catalog_url (page_no s)) = Response 200 cp \<and>
           detail_link cp = Some tag \<and>
           attr_get tag (asc ''href'') = Some href \<and>
           get_page_config s (Some pg) (WEBSITE_URL @ strip href) = Inr c \<and>
           download_images w (s\<lparr>data_ads := data_ads s @ [c]\<rparr>) (Some pg) 3 = (rest, Inr ()) \<and>
           tr = Get (catalog_url (page_no s)) # Get (WEBSITE_URL @ strip href) # rest \<and>
           s' = s\<lparr>data_ads := data_ads s @ [c], page_no := page_no s + 1\<rparr>"
proof -
  define curl where "curl = catalog_url (page_no s)"
  obtain cp where cp: "http_get w curl = Response 200 cp"
    using assms unfolding iteration_def parse_page_def curl_def
    by (auto split: http_outcome.splits if_splits)
  have p1: "parse_page w curl = ([Get curl], Inr (Some cp))"
    by (simp add: parse_page_def cp)
  obtain tag where tag: "detail_link cp = Some tag"
    using assms p1 unfolding iteration_def curl_def
    by (cases "detail_link cp") auto
  obtain href where href: "attr_get tag (asc ''href'') = Some href"
    using assms p1 tag unfolding iteration_def curl_def
    by (cases "attr_get tag (asc ''href'')") auto
  define durl where "durl = WEBSITE_URL @ strip href"
  obtain tr2 r2 where p2: "parse_page w durl = (tr2, r2)"
    by (cases "parse_page w durl")
  have tr2: "tr2 = [Get durl]"
    using parse_page_events [of w durl] p2 by simp
  have step: "(case r2 of
        Inl e \<Rightarrow> ([Get curl] @ tr2, Inl e)
      | Inr page \<Rightarrow>
          (case get_page_config s page durl of
             Inl e \<Rightarrow> ([Get curl] @ tr2, Inl e)
           | Inr config \<Rightarrow>
               (let self' = s\<lparr>data_ads := data_ads s @ [config]\<rparr>
                in case download_images w self' page 3 of
                     (tr3, Inl e) \<Rightarrow> ([Get curl] @ tr2 @ tr3, Inl e)
                   | (tr3, Inr u) \<Rightarrow>
                       ([Get curl] @ tr2 @ tr3, Inr (Some (self'\<lparr>page_no := page_no self' + 1\<rparr>))))))
      = (tr, Inr (Some s'))"
    using assms unfolding iteration_def
    by (simp only: p1 [unfolded curl_def] tag href p2 [unfolded durl_def] Let_def
          prod.case sum.case option.case durl_def curl_def)
  obtain page where r2: "r2 = Inr page"
    using step by (cases r2) auto
  obtain c where c: "get_page_config s page durl = Inr c"
    using step r2 by (cases "get_page_config s page durl") auto
  obtain pg where pg: "page = Some pg"
    using get_page_config_page [OF c] by blast
  obtain tr3 r3 where d: "download_images w (s\<lparr>data_ads := data_ads s @ [c]\<rparr>) page 3 = (tr3, r3)"
    by (cases "download_images w (s\<lparr>data_ads := data_ads s @ [c]\<rparr>) page 3")
  have "r3 = Inr () \<and> tr = [Get curl] @ tr2 @ tr3 \<and>
        s' = s\<lparr>data_ads := data_ads s @ [c], page_no := page_no s + 1\<rparr>"
    using step r2 c d by (cases r3) (auto simp: Let_def)
  then show ?thesis
    using cp tag href c d pg tr2 unfolding curl_def durl_def by auto
qed


lemma iteration_break:
  "iteration w s = (tr, Inr None) \<longleftrightarrow>
     (\<exists>cp. http_get w (catalog_url (page_no s)) = Response 200 cp \<and> detail_link cp = None) \<and>
     tr = [Get (catalog_url (page_no s))]"
proof -
  define curl where "curl = catalog_url (page_no s)"
  show ?thesis
  proof (cases "http_get w curl")
    case NetworkFailure
    then show ?thesis
      unfolding iteration_def parse_page_def curl_def [symmetric] by simp
  next
    case (Response status cp)
    show ?thesis
    proof (cases "status = 200")
      case False
      with Response show ?thesis
        unfolding iteration_def parse_page_def curl_def [symmetric] by simp
    next
      case True
      show ?thesis
      proof (cases "detail_link cp")
        case None
        with Response True show ?thesis
          unfolding iteration_def parse_page_def curl_def [symmetric] by auto
      next
        case (Some tag)
        with Response True show ?thesis
          unfolding iteration_def parse_page_def curl_def [symmetric]
          by (auto simp: Let_def split: option.splits sum.splits prod.splits http_outcome.splits)
      qed
    qed
  qed
qed

lemma download_loop_no_write: "WriteJson p d \<notin> set (fst (download_loop w dir images js))"
  using download_loop_events [of w dir images js] by auto

lemma download_images_no_write: "WriteJson p d \<notin> set (fst (download_images w s page cap))"
proof (cases page)
  case None
  then show ?thesis by (simp add: download_images_def)
next
  case (Some pg)
  show ?thesis
    unfolding Some download_images_unfold using download_loop_no_write by simp
qed

lemma iteration_no_write: "WriteJson p d \<notin> set (fst (iteration w s))"
proof -
  have pp: "\<And>url tr r. parse_page w url = (tr, r) \<Longrightarrow> tr = [Get url]"
    using parse_page_events by (metis fst_conv)
  have dl: "\<And>s page tr r. download_images w s page 3 = (tr, r) \<Longrightarrow> WriteJson p d \<notin> set tr"
    using download_images_no_write by (metis fst_conv)
  show ?thesis
    unfolding iteration_def Let_def
    by (auto split: prod.splits sum.splits option.splits dest!: pp dl)
qed

lemma reaches_no_write: "reaches w s0 tr s \<Longrightarrow> WriteJson p d \<notin> set tr"
proof (induction rule: reaches.induct)
  case start
  show ?case by simp
next
  case (pass tr s tr' s')
  then show ?case
    using iteration_no_write [of p d w s] by simp
qed

lemma process_loop_reaches:
  "reaches w s0 tr s \<Longrightarrow> process_loop w tr0 s0 = process_loop w (tr0 @ tr) s"
proof (induction rule: reaches.induct)
  case start
  show ?case by simp
next
  case (pass tr s tr' s')
  have "process_loop w (tr0 @ tr) s = process_loop w ((tr0 @ tr) @ tr') s'"
    by (subst process_loop.simps) (simp add: pass.hyps)
  with pass.IH show ?case by simp
qed

lemma process_loop_break:
  "iteration w s = (tr', Inr None) \<Longrightarrow> process_loop w tr s = Some (tr @ tr', Inr s)"
  by (subst process_loop.simps) simp

lemma process_loop_fault:
  "iteration w s = (tr', Inl e) \<Longrightarrow> process_loop w tr s = Some (tr @ tr', Inl e)"
  by (subst process_loop.simps) simp

lemma reaches_prepend:
  "reaches w s1 tr s \<Longrightarrow> iteration w s0 = (tr0, Inr (Some s1)) \<Longrightarrow> reaches w s0 (tr0 @ tr) s"
proof (induction rule: reaches.induct)
  case start
  then show ?case
    using reaches.pass [OF reaches.start, of w s0 tr0 s1] by simp
next
  case (pass tr s tr' s')
  from pass.IH [OF pass.prems] have "reaches w s0 (tr0 @ tr) s" .
  from this pass.hyps(2) have "reaches w s0 ((tr0 @ tr) @ tr') s'"
    by (rule reaches.pass)
  then show ?case by simp
qed

lemma process_loop_result:
  assumes "process_loop w tr0 s0 = Some y"
  shows "\<exists>tr s tr'. reaches w s0 tr s \<and> fst y = tr0 @ tr @ tr' \<and>
       (iteration w s = (tr', Inr None) \<and> snd y = Inr s \<or>
        (\<exists>e. iteration w s = (tr', Inl e) \<and> snd y = Inl e))"
proof (rule process_loop.raw_induct
    [where P = "\<lambda>w tr0 s0 y. \<exists>tr s tr'. reaches w s0 tr s \<and> fst y = tr0 @ tr @ tr' \<and>
       (iteration w s = (tr', Inr None) \<and> snd y = Inr s \<or>
        (\<exists>e. iteration w s = (tr', Inl e) \<and> snd y = Inl e))", OF _ assms])
  fix loop w tr0 s0 y
  assume IH: "\<And>w tr0 s0 y. loop w tr0 s0 = Some y \<Longrightarrow>
      \<exists>tr s tr'. reaches w s0 tr s \<and> fst y = tr0 @ tr @ tr' \<and>
       (iteration w s = (tr', Inr None) \<and> snd y = Inr s \<or>
        (\<exists>e. iteration w s = (tr', Inl e) \<and> snd y = Inl e))"
    and body: "(case iteration w s0 of
        (tr', Inl e) \<Rightarrow> Some (tr0 @ tr', Inl e)
      | (tr', Inr None) \<Rightarrow> Some (tr0 @ tr', Inr s0)
      | (tr', Inr (Some self')) \<Rightarrow> loop w (tr0 @ tr') self') = Some y"
  obtain tr1 r1 where it: "iteration w s0 = (tr1, r1)"
    by (cases "iteration w s0")
  show "\<exists>tr s tr'. reaches w s0 tr s \<and> fst y = tr0 @ tr @ tr' \<and>
       (iteration w s = (tr', Inr None) \<and> snd y = Inr s \<or>
        (\<exists>e. iteration w s = (tr', Inl e) \<and> snd y = Inl e))"
  proof (cases r1)
    case (Inl e)
    with body it have "y = (tr0 @ tr1, Inl e)" by simp
    with it Inl show ?thesis
      using reaches.start [of w s0] by fastforce
  next
    case (Inr nxt)
    show ?thesis
    proof (cases nxt)
      case None
      with body it Inr have "y = (tr0 @ tr1, Inr s0)" by simp
      with it Inr None show ?thesis
        using reaches.start [of w s0] by fastforce
    next
      case (Some s1)
      with body it Inr have "loop w (tr0 @ tr1) s1 = Some y" by simp
      from IH [OF this] obtain tr s tr' where
        r: "reaches w s1 tr s" and f: "fst y = (tr0 @ tr1) @ tr @ tr'" and
        o: "iteration w s = (tr', Inr None) \<and> snd y = Inr s \<or>
            (\<exists>e. iteration w s = (tr', Inl e) \<and> snd y = Inl e)"
        by blast
      have "reaches w s0 (tr1 @ tr) s"
        using reaches_prepend [OF r] it Inr Some by simp
      moreover have "fst y = tr0 @ (tr1 @ tr) @ tr'"
        using f by simp
      ultimately show ?thesis
        using o by blast
    qed
  qed
qed


lemma process_cases:
  "process w s0 = Some (T, r) \<Longrightarrow>
     (\<exists>e. r = Inl e \<and> process_loop w [] s0 = Some (T, Inl e)) \<or>
     (\<exists>s T0. process_loop w [] s0 = Some (T0, Inr s) \<and>
        T = T0 @ [WriteJson (path_to_dir s @ asc ''/data.json'') (data_dict (data_ads s))] \<and>
        r = (if dumped_bytes (data_dict (data_ads s)) = None then Inl UnicodeEncodeError else Inr s))"
  unfolding process_def save_json_data_def
  by (auto split: option.splits sum.splits prod.splits)

text \<open>
  C4.  When the loop, after any number of complete passes from the scraper \<open>s0\<close>, fetches a
  catalog page with status 200 that has no listing link, \<^verbatim>\<open>process\<close> returns: the effects
  of the run are those of the passes, the GET of that catalog page and then, last and only
  once, the dump of the document to \<^verbatim>\<open>data.json\<close>; no pass before it wrote the file.  The
  run ends normally unless the text of the document cannot be encoded.  Conversely, every
  run that returns normally ended in this way, and in a run that ends in a fault the file was
  not written before the last effect.
\<close>

theorem process_writes_once_at_exit:
  "(reaches w s0 tr s \<and> http_get w (catalog_url (page_no s)) = Response 200 cp \<and>
    detail_link cp = None
      \<longrightarrow> process w s0 =
            Some (tr @ [Get (catalog_url (page_no s)),
                        WriteJson (path_to_dir s @ asc ''/data.json'') (data_dict (data_ads s))],
                  if dumped_bytes (data_dict (data_ads s)) = None then Inl UnicodeEncodeError
                  else Inr s)
          \<and> (\<forall>p d. WriteJson p d \<notin> set tr))
   \<and> (process w s0 = Some (T, Inr s') \<longrightarrow>
        (\<exists>tr cp. reaches w s0 tr s' \<and>
           http_get w (catalog_url (page_no s')) = Response 200 cp \<and> detail_link cp = None \<and>
           T = tr @ [Get (catalog_url (page_no s')),
                     WriteJson (path_to_dir s' @ asc ''/data.json'') (data_dict (data_ads s'))] \<and>
           (\<forall>p d. WriteJson p d \<notin> set tr)))
   \<and> (process w s0 = Some (T', Inl e) \<longrightarrow> (\<forall>p d. WriteJson p d \<notin> set (butlast T')))"
proof (intro conjI impI)
  assume h: "reaches w s0 tr s \<and> http_get w (catalog_url (page_no s)) = Response 200 cp \<and>
    detail_link cp = None"
  then have r: "reaches w s0 tr s" by simp
  from h have "iteration w s = ([Get (catalog_url (page_no s))], Inr None)"
    using iteration_break [of w s "[Get (catalog_url (page_no s))]"] by blast
  then have "process_loop w ([] @ tr) s = Some (([] @ tr) @ [Get (catalog_url (page_no s))], Inr s)"
    by (rule process_loop_break)
  with process_loop_reaches [OF r, of "[]"]
  have "process_loop w [] s0 = Some (tr @ [Get (catalog_url (page_no s))], Inr s)"
    by simp
  then show "process w s0 =
            Some (tr @ [Get (catalog_url (page_no s)),
                        WriteJson (path_to_dir s @ asc ''/data.json'') (data_dict (data_ads s))],
                  if dumped_bytes (data_dict (data_ads s)) = None then Inl UnicodeEncodeError
                  else Inr s)"
    unfolding process_def save_json_data_def by (simp split: option.splits)
  show "\<forall>p d. WriteJson p d \<notin> set tr"
    using reaches_no_write [OF r] by blast
next
  assume "process w s0 = Some (T, Inr s')"
  from process_cases [OF this] obtain T0 where
    l: "process_loop w [] s0 = Some (T0, Inr s')" and
    T: "T = T0 @ [WriteJson (path_to_dir s' @ asc ''/data.json'') (data_dict (data_ads s'))]"
    by (auto split: if_splits)
  from process_loop_result [OF l] obtain tr tr' where
    r: "reaches w s0 tr s'" and f: "T0 = tr @ tr'" and it: "iteration w s' = (tr', Inr None)"
    by auto
  from it obtain cp where
    "http_get w (catalog_url (page_no s')) = Response 200 cp" "detail_link cp = None"
    "tr' = [Get (catalog_url (page_no s'))]"
    using iteration_break [of w s' tr'] by blast
  with r f T reaches_no_write [OF r]
  show "\<exists>tr cp. reaches w s0 tr s' \<and>
           http_get w (catalog_url (page_no s')) = Response 200 cp \<and> detail_link cp = None \<and>
           T = tr @ [Get (catalog_url (page_no s')),
                     WriteJson (path_to_dir s' @ asc ''/data.json'') (data_dict (data_ads s'))] \<and>
           (\<forall>p d. WriteJson p d \<notin> set tr)"
    by auto
next
  assume "process w s0 = Some (T', Inl e)"
  from process_cases [OF this] consider
    (loop) "process_loop w [] s0 = Some (T', Inl e)"
  | (dump) s T0 where "process_loop w [] s0 = Some (T0, Inr s)"
      "T' = T0 @ [WriteJson (path_to_dir s @ asc ''/data.json'') (data_dict (data_ads s))]"
    by auto
  then show "\<forall>p d. WriteJson p d \<notin> set (butlast T')"
  proof cases
    case loop
    from process_loop_result [OF loop] obtain tr s tr' where
      r: "reaches w s0 tr s" and f: "T' = tr @ tr'" and it: "iteration w s = (tr', Inl e)"
      by auto
    have "\<forall>p d. WriteJson p d \<notin> set T'"
      using reaches_no_write [OF r] iteration_no_write [of _ _ w s] it f by auto
    then show ?thesis
      by (meson in_set_butlastD)
  next
    case dump
    from process_loop_result [OF dump(1)] obtain tr tr' where
      r: "reaches w s0 tr s" and f: "T0 = tr @ tr'" and it: "iteration w s = (tr', Inr None)"
      by auto
    have "\<forall>p d. WriteJson p d \<notin> set T0"
      using reaches_no_write [OF r] iteration_no_write [of _ _ w s] it f by auto
    then show ?thesis
      unfolding dump(2) by simp
  qed
qed

lemma reaches_path: "reaches w s0 tr s \<Longrightarrow> path_to_dir s = path_to_dir s0"
proof (induction rule: reaches.induct)
  case start
  show ?case by simp
next
  case (pass tr s tr' s')
  from iteration_pass [OF pass.hyps(2)] pass.IH show ?case by auto
qed

lemma download_images_first:
  "download_images w s (Some pg) cap = (tr, r) \<Longrightarrow> \<exists>rest. tr = MkDir (listing_dir s) # rest"
  unfolding download_images_unfold by auto

text \<open>
  C5.  After any number of complete passes of a fresh scraper with output directory
  \<open>dir\<close>: the page number is one more than the number of records; the \<open>n\<close>-th record
  (counted from 1) has id \<open>n\<close>, the directory \<open>dir/n\<close> was made, and its \<^verbatim>\<open>href\<close>
  was read from the first listing link of the catalog page fetched with
  \<^verbatim>\<open>currentpage=n\<close>.  Every further pass appends one record, with the next id, to the
  unchanged list, adds one to the page number, and its effects start with the GET of the
  catalog URL for that id, the GET of the record's \<^verbatim>\<open>href\<close> and the creation of the
  directory named by that id.
\<close>

theorem visit_order_invariant:
  assumes "reaches w (snd (init dir)) tr s"
  shows "page_no s = int (length (data_ads s)) + 1
     \<and> (\<forall>n < length (data_ads s).
          cfg_id (data_ads s ! n) = int n + 1 \<and>
          MkDir (dir @ asc ''/'' @ str_int (int n + 1)) \<in> set tr \<and>
          (\<exists>cp tag href.
              http_get w (catalog_url (int n + 1)) = Response 200 cp \<and>
              detail_link cp = Some tag \<and> attr_get tag (asc ''href'') = Some href \<and>
              cfg_href (data_ads s ! n) = WEBSITE_URL @ strip href))
     \<and> (\<forall>tr' s'. iteration w s = (tr', Inr (Some s')) \<longrightarrow>
          (\<exists>c rest. data_ads s' = data_ads s @ [c] \<and>
             cfg_id c = int (length (data_ads s)) + 1 \<and>
             page_no s' = page_no s + 1 \<and>
             tr' = Get (catalog_url (cfg_id c)) # Get (cfg_href c) #
                   MkDir (dir @ asc ''/'' @ str_int (cfg_id c)) # rest))"
proof -
  have inv: "page_no s = int (length (data_ads s)) + 1
     \<and> (\<forall>n < length (data_ads s).
          cfg_id (data_ads s ! n) = int n + 1 \<and>
          MkDir (dir @ asc ''/'' @ str_int (int n + 1)) \<in> set tr \<and>
          (\<exists>cp tag href.
              http_get w (catalog_url (int n + 1)) = Response 200 cp \<and>
              detail_link cp = Some tag \<and> attr_get tag (asc ''href'') = Some href \<and>
              cfg_href (data_ads s ! n) = WEBSITE_URL @ strip href))"
    using assms
  proof (induction rule: reaches.induct)
    case start
    show ?case by (simp add: init_def)
  next
    case (pass tr s tr' s')
    from iteration_pass [OF pass.hyps(2)] obtain cp tag href pg c rest where
      cp: "http_get w (catalog_url (page_no s)) = Response 200 cp" and
      tag: "detail_link cp = Some tag" and
      href: "attr_get tag (asc ''href'') = Some href" and
      c: "get_page_config s (Some pg) (WEBSITE_URL @ strip href) = Inr c" and
      d: "download_images w (s\<lparr>data_ads := data_ads s @ [c]\<rparr>) (Some pg) 3 = (rest, Inr ())" and
      tr': "tr' = Get (catalog_url (page_no s)) # Get (WEBSITE_URL @ strip href) # rest" and
      s': "s' = s\<lparr>data_ads := data_ads s @ [c], page_no := page_no s + 1\<rparr>"
      by blast
    have path: "path_to_dir s = dir"
      using reaches_path [OF pass.hyps(1)] by (simp add: init_def)
    have pn: "page_no s = int (length (data_ads s)) + 1"
      using pass.IH by simp
    have idc: "cfg_id c = page_no s" "cfg_href c = WEBSITE_URL @ strip href"
      using get_page_config_id_href [OF c] by simp_all
    obtain rest' where rest: "rest = MkDir (dir @ asc ''/'' @ str_int (page_no s)) # rest'"
      using download_images_first [OF d] path by auto
    have "cfg_id (data_ads s' ! n) = int n + 1 \<and>
          MkDir (dir @ asc ''/'' @ str_int (int n + 1)) \<in> set (tr @ tr') \<and>
          (\<exists>cp tag href.
              http_get w (catalog_url (int n + 1)) = Response 200 cp \<and>
              detail_link cp = Some tag \<and> attr_get tag (asc ''href'') = Some href \<and>
              cfg_href (data_ads s' ! n) = WEBSITE_URL @ strip href)"
      if n: "n < length (data_ads s')" for n
    proof (cases "n < length (data_ads s)")
      case True
      with pass.IH s' show ?thesis
        by (auto simp: nth_append)
    next
      case False
      with n s' have n_eq: "n = length (data_ads s)" by simp
      then have nth: "data_ads s' ! n = c"
        using s' by simp
      have "int n + 1 = page_no s"
        using pn n_eq by simp
      then show ?thesis
        using nth idc cp tag href tr' rest by auto
    qed
    moreover have "page_no s' = int (length (data_ads s')) + 1"
      using pn s' by simp
    ultimately show ?case by blast
  qed
  have step: "\<exists>c rest. data_ads s' = data_ads s @ [c] \<and>
             cfg_id c = int (length (data_ads s)) + 1 \<and>
             page_no s' = page_no s + 1 \<and>
             tr' = Get (catalog_url (cfg_id c)) # Get (cfg_href c) #
                   MkDir (dir @ asc ''/'' @ str_int (cfg_id c)) # rest"
    if it: "iteration w s = (tr', Inr (Some s'))" for tr' s'
  proof -
    from iteration_pass [OF it] obtain href pg c rest where
      c: "get_page_config s (Some pg) (WEBSITE_URL @ strip href) = Inr c" and
      d: "download_images w (s\<lparr>data_ads := data_ads s @ [c]\<rparr>) (Some pg) 3 = (rest, Inr ())" and
      tr': "tr' = Get (catalog_url (page_no s)) # Get (WEBSITE_URL @ strip href) # rest" and
      s': "s' = s\<lparr>data_ads := data_ads s @ [c], page_no := page_no s + 1\<rparr>"
      by blast
    have path: "path_to_dir s = dir"
      using reaches_path [OF assms] by (simp add: init_def)
    have idc: "cfg_id c = page_no s" "cfg_href c = WEBSITE_URL @ strip href"
      using get_page_config_id_href [OF c] by simp_all
    obtain rest' where rest: "rest = MkDir (dir @ asc ''/'' @ str_int (page_no s)) # rest'"
      using download_images_first [OF d] path by auto
    show ?thesis
      using inv idc tr' s' rest by auto
  qed
  from inv step show ?thesis by blast
qed


lemma download_images_detail_page:
  "download_images one_listing_world self (Some detail_page) 3 =
     ([MkDir (listing_dir self),
       Retrieve (asc ''https://img.example.com/a/1.jpg'') (listing_dir self @ asc ''/image_1.jpg''),
       Retrieve (asc ''https://img.example.com/a/2.png'') (listing_dir self @ asc ''/image_2.png'')],
      Inr ())"
  unfolding download_images_unfold gallery_detail_page
  by (simp add: gallery_img_def slice_to_def upt_two str_int_small one_listing_world_def)

lemma iteration_first_pass:
  "iteration one_listing_world (snd (init (asc ''data''))) =
     (first_pass_events, Inr (Some after_first_pass))"
proof -
  define s0 where "s0 = snd (init (asc ''data''))"
  define link where "link = Elem (asc ''a'') None
          [(asc ''data-item-name'', asc ''detail-page-link''),
           (asc ''href'', asc '' /transporter/details/1.html '')]
          [Text (asc ''Renault Master'')]"
  have s0: "page_no s0 = 1" "path_to_dir s0 = asc ''data''" "data_ads s0 = []"
    by (simp_all add: s0_def init_def)
  have p1: "parse_page one_listing_world (catalog_url (page_no s0)) =
      ([Get (catalog_url 1)], Inr (Some catalog_with_link))"
    unfolding s0 by (simp add: parse_page_def world_simps str_int_small)
  have l: "detail_link catalog_with_link = Some link"
    by (simp add: find_tag_def catalog_with_link_def link_def)
  have h: "attr_get link (asc ''href'') = Some (asc '' /transporter/details/1.html '')"
    by (simp add: link_def)
  have u: "WEBSITE_URL @ strip (asc '' /transporter/details/1.html '') = detail_url"
    by (simp add: detail_url_def strip_def is_space_def)
  have p2: "parse_page one_listing_world detail_url = ([Get detail_url], Inr (Some detail_page))"
    by (simp add: parse_page_def world_simps)
  have c: "get_page_config s0 (Some detail_page) detail_url = Inr renault_record"
    unfolding get_page_config_detail_page by (simp add: renault_record_def s0)
  have d: "download_images one_listing_world (s0\<lparr>data_ads := data_ads s0 @ [renault_record]\<rparr>)
             (Some detail_page) 3 =
     ([MkDir (asc ''data/1''),
       Retrieve (asc ''https://img.example.com/a/1.jpg'') (asc ''data/1/image_1.jpg''),
       Retrieve (asc ''https://img.example.com/a/2.png'') (asc ''data/1/image_2.png'')],
      Inr ())"
    unfolding download_images_detail_page by (simp add: s0 str_int_small)
  have "iteration one_listing_world s0 =
      ([Get (catalog_url 1)] @ [Get detail_url] @
         [MkDir (asc ''data/1''),
          Retrieve (asc ''https://img.example.com/a/1.jpg'') (asc ''data/1/image_1.jpg''),
          Retrieve (asc ''https://img.example.com/a/2.png'') (asc ''data/1/image_2.png'')],
       Inr (Some (s0\<lparr>data_ads := data_ads s0 @ [renault_record],
                    page_no := page_no (s0\<lparr>data_ads := data_ads s0 @ [renault_record]\<rparr>) + 1\<rparr>)))"
    unfolding iteration_def
    by (simp only: p1 l h u p2 c d Let_def prod.case sum.case option.case)
  then show ?thesis
    unfolding s0_def [symmetric]
    by (simp add: s0_def init_def first_pass_events_def after_first_pass_def str_int_small)
qed

lemma detail_link_catalog_without_link: "detail_link catalog_without_link = None"
  by (simp add: find_tag_def catalog_without_link_def)

lemma http_get_second_catalog:
  "http_get one_listing_world (catalog_url 2) = Response 200 catalog_without_link"
  by (simp add: world_simps str_int_small)

lemma reaches_first_pass:
  "reaches one_listing_world (snd (init (asc ''data''))) first_pass_events after_first_pass"
  using reaches.pass [OF reaches.start iteration_first_pass] by simp

lemma utf8_encode_defined: "\<forall>c\<in>set s. c < 55296 \<Longrightarrow> utf8_encode s \<noteq> None"
  by (induction s) (auto simp: utf8_char_def)

lemma dumped_renault_record: "dumped_bytes (data_dict [renault_record]) \<noteq> None"
  unfolding dumped_bytes_def
  by (rule utf8_encode_defined)
     (simp add: data_dict_def config_dict_def renault_record_def detail_url_def WEBSITE_URL_def
        encode_basestring_def escape_char_def str_int_def str_nat.simps)

theorem process_writes_once_at_exit_witness:
  "reaches one_listing_world (snd (init (asc ''data''))) first_pass_events after_first_pass
   \<and> http_get one_listing_world (catalog_url 2) = Response 200 catalog_without_link
   \<and> detail_link catalog_without_link = None
   \<and> process one_listing_world (snd (init (asc ''data''))) =
       Some (first_pass_events @
               [Get (catalog_url 2),
                WriteJson (asc ''data/data.json'') (data_dict [renault_record])],
             Inr after_first_pass)"
proof -
  have pn: "page_no after_first_pass = 2" "path_to_dir after_first_pass = asc ''data''"
    "data_ads after_first_pass = [renault_record]"
    by (simp_all add: after_first_pass_def)
  from process_writes_once_at_exit
    [of one_listing_world "snd (init (asc ''data''))" first_pass_events after_first_pass
        catalog_without_link]
    reaches_first_pass http_get_second_catalog detail_link_catalog_without_link
  have "process one_listing_world (snd (init (asc ''data''))) =
       Some (first_pass_events @
               [Get (catalog_url (page_no after_first_pass)),
                WriteJson (path_to_dir after_first_pass @ asc ''/data.json'')
                  (data_dict (data_ads after_first_pass))],
             if dumped_bytes (data_dict (data_ads after_first_pass)) = None
             then Inl UnicodeEncodeError else Inr after_first_pass)"
    unfolding pn by blast
  then show ?thesis
    using reaches_first_pass http_get_second_catalog detail_link_catalog_without_link
      dumped_renault_record
    unfolding pn by simp
qed

theorem visit_order_invariant_witness:
  "reaches one_listing_world (snd (init (asc ''data''))) first_pass_events after_first_pass
   \<and> page_no after_first_pass = 2
   \<and> length (data_ads after_first_pass) = 1
   \<and> cfg_id (data_ads after_first_pass ! 0) = 1
   \<and> MkDir (asc ''data/1'') \<in> set first_pass_events"
proof -
  from visit_order_invariant [OF reaches_first_pass]
  have "page_no after_first_pass = int (length (data_ads after_first_pass)) + 1"
    and "\<forall>n < length (data_ads after_first_pass).
          cfg_id (data_ads after_first_pass ! n) = int n + 1 \<and>
          MkDir (asc ''data'' @ asc ''/'' @ str_int (int n + 1)) \<in> set first_pass_events"
    by blast+
  moreover have "length (data_ads after_first_pass) = 1"
    by (simp add: after_first_pass_def)
  ultimately show ?thesis
    using reaches_first_pass by (simp add: str_int_small)
qed

section \<open>The written file\<close>

lemma file_bytes_from_last_dump:
  "file_bytes_from cur (tr @ [WriteJson path doc]) path = dumped_bytes doc"
proof (induction tr arbitrary: cur)
  case Nil
  show ?case by simp
next
  case (Cons e tr)
  then show ?case by (cases e) simp_all
qed

lemma file_bytes_last_dump: "file_bytes (tr @ [WriteJson path doc]) path = dumped_bytes doc"
  unfolding file_bytes_def by (rule file_bytes_from_last_dump)

lemma save_json_data_cases:
  "save_json_data doc path = (tr, r) \<Longrightarrow>
     tr = [WriteJson path doc] \<and>
     r = (case dumped_bytes doc of None \<Rightarrow> Inl UnicodeEncodeError | Some bytes \<Rightarrow> Inr ())"
  by (auto simp: save_json_data_def)

lemma dumped_bytes_load: "dumped_bytes doc = Some bytes \<Longrightarrow>
    utf8_decode bytes = Some (json_dumps doc) \<and> load_bytes bytes = Some doc"
proof -
  assume "dumped_bytes doc = Some bytes"
  then have "utf8_encode (json_dumps doc) = Some bytes"
    by (simp add: dumped_bytes_def)
  then have d: "utf8_decode bytes = Some (json_dumps doc)"
    by (rule utf8_decode_encode)
  then show ?thesis
    by (simp add: load_bytes_def json_loads_json_dumps)
qed

lemma process_at_break:
  assumes r: "reaches w s0 tr s"
    and cp: "http_get w (catalog_url (page_no s)) = Response 200 cp" "detail_link cp = None"
  shows "process w s0 =
            Some (tr @ [Get (catalog_url (page_no s)),
                        WriteJson (path_to_dir s @ asc ''/data.json'') (data_dict (data_ads s))],
                  if dumped_bytes (data_dict (data_ads s)) = None then Inl UnicodeEncodeError
                  else Inr s)"
proof -
  from cp have "iteration w s = ([Get (catalog_url (page_no s))], Inr None)"
    using iteration_break [of w s "[Get (catalog_url (page_no s))]"] by blast
  then have "process_loop w ([] @ tr) s = Some (([] @ tr) @ [Get (catalog_url (page_no s))], Inr s)"
    by (rule process_loop_break)
  with process_loop_reaches [OF r, of "[]"]
  have "process_loop w [] s0 = Some (tr @ [Get (catalog_url (page_no s))], Inr s)"
    by simp
  then show ?thesis
    unfolding process_def save_json_data_def by (simp split: option.splits)
qed

text \<open>
  C6.  When \<^verbatim>\<open>__save_json_data\<close> returns normally, its one effect is the dump of the
  document into the file at the path, and the bytes then in that file, read as UTF-8, are
  the dumped text and load to the document that was in memory.  So after every run of
  \<^verbatim>\<open>process\<close> that returns normally, loading \<^verbatim>\<open>data.json\<close> gives the document
  \<^verbatim>\<open>{"ads": [...]}\<close> of the scraper, every record in its place.  The records are
  determined by the document, and a string whose characters are all beyond ASCII is written
  between its quotes unchanged.
\<close>

theorem data_json_round_trip:
  "(save_json_data (data_dict ads) path = (tr, Inr ()) \<longrightarrow>
      tr = [WriteJson path (data_dict ads)] \<and>
      (\<exists>bytes. file_bytes tr path = Some bytes \<and>
         dumped_bytes (data_dict ads) = Some bytes \<and>
         utf8_decode bytes = Some (json_dumps (data_dict ads)) \<and>
         load_bytes bytes = Some (data_dict ads)))
   \<and> (process w s0 = Some (T, Inr s) \<longrightarrow>
        (\<exists>bytes. file_bytes T (path_to_dir s @ asc ''/data.json'') = Some bytes \<and>
           utf8_decode bytes = Some (json_dumps (data_dict (data_ads s))) \<and>
           load_bytes bytes = Some (data_dict (data_ads s))))
   \<and> (dumped_bytes (data_dict ads) = Some bytes \<longrightarrow>
        utf8_decode bytes = Some (json_dumps (data_dict ads)) \<and>
        load_bytes bytes = Some (data_dict ads))
   \<and> (data_dict ads = data_dict ads' \<longrightarrow> ads = ads')
   \<and> ((\<forall>c\<in>set str. 128 \<le> c) \<longrightarrow> encode_basestring str = [34] @ str @ [34])"
proof (intro conjI impI)
  assume sv: "save_json_data (data_dict ads) path = (tr, Inr ())"
  from save_json_data_cases [OF sv] have tr: "tr = [WriteJson path (data_dict ads)]" and
    r: "Inr () = (case dumped_bytes (data_dict ads) of
                    None \<Rightarrow> Inl UnicodeEncodeError | Some bytes \<Rightarrow> Inr ())"
    by simp_all
  from r obtain b where b: "dumped_bytes (data_dict ads) = Some b"
    by (cases "dumped_bytes (data_dict ads)") simp_all
  show "tr = [WriteJson path (data_dict ads)]" by (rule tr)
  have "file_bytes tr path = Some b"
    unfolding tr using file_bytes_last_dump [of "[]" path "data_dict ads"] b by simp
  with b dumped_bytes_load [OF b]
  show "\<exists>bytes. file_bytes tr path = Some bytes \<and>
         dumped_bytes (data_dict ads) = Some bytes \<and>
         utf8_decode bytes = Some (json_dumps (data_dict ads)) \<and>
         load_bytes bytes = Some (data_dict ads)"
    by blast
next
  assume "process w s0 = Some (T, Inr s)"
  from process_cases [OF this] obtain T0 where
    T: "T = T0 @ [WriteJson (path_to_dir s @ asc ''/data.json'') (data_dict (data_ads s))]" and
    d: "dumped_bytes (data_dict (data_ads s)) \<noteq> None"
    by (auto split: if_splits)
  from d obtain b where b: "dumped_bytes (data_dict (data_ads s)) = Some b"
    by auto
  have "file_bytes T (path_to_dir s @ asc ''/data.json'') = Some b"
    unfolding T file_bytes_last_dump by (rule b)
  with dumped_bytes_load [OF b]
  show "\<exists>bytes. file_bytes T (path_to_dir s @ asc ''/data.json'') = Some bytes \<and>
           utf8_decode bytes = Some (json_dumps (data_dict (data_ads s))) \<and>
           load_bytes bytes = Some (data_dict (data_ads s))"
    by blast
next
  assume "dumped_bytes (data_dict ads) = Some bytes"
  from dumped_bytes_load [OF this]
  show "utf8_decode bytes = Some (json_dumps (data_dict ads))"
    and "load_bytes bytes = Some (data_dict ads)"
    by simp_all
next
  assume "data_dict ads = data_dict ads'"
  then show "ads = ads'" by (rule data_dict_inject)
next
  assume "\<forall>c\<in>set str. 128 \<le> c"
  then have "\<forall>c\<in>set str. 32 \<le> c \<and> c \<noteq> 34 \<and> c \<noteq> 92"
    by auto
  then show "encode_basestring str = [34] @ str @ [34]"
    by (rule encode_basestring_plain)
qed

lemma process_one_listing_world:
  "process one_listing_world (snd (init (asc ''data''))) =
       Some (first_pass_events @
               [Get (catalog_url 2),
                WriteJson (asc ''data/data.json'') (data_dict [renault_record])],
             Inr after_first_pass)"
proof -
  have pn: "page_no after_first_pass = 2" "path_to_dir after_first_pass = asc ''data''"
    "data_ads after_first_pass = [renault_record]"
    by (simp_all add: after_first_pass_def)
  have "http_get one_listing_world (catalog_url (page_no after_first_pass)) =
      Response 200 catalog_without_link"
    unfolding pn by (rule http_get_second_catalog)
  from process_at_break [OF reaches_first_pass this detail_link_catalog_without_link]
  show ?thesis
    using dumped_renault_record unfolding pn by simp
qed

theorem data_json_round_trip_witness:
  "save_json_data (data_dict [eszett_record]) (asc ''data/data.json'') =
       ([WriteJson (asc ''data/data.json'') (data_dict [eszett_record])], Inr ())
   \<and> file_bytes [WriteJson (asc ''data/data.json'') (data_dict [eszett_record])]
         (asc ''data/data.json'') = Some eszett_bytes
   \<and> load_bytes eszett_bytes = Some (data_dict [eszett_record])
   \<and> process one_listing_world (snd (init (asc ''data''))) =
       Some (first_pass_events @
               [Get (catalog_url 2),
                WriteJson (asc ''data/data.json'') (data_dict [renault_record])],
             Inr after_first_pass)
   \<and> (\<exists>bytes. file_bytes
                  (first_pass_events @
                     [Get (catalog_url 2),
                      WriteJson (asc ''data/data.json'') (data_dict [renault_record])])
                  (asc ''data/data.json'') = Some bytes \<and>
                load_bytes bytes = Some (data_dict [renault_record]))
   \<and> encode_basestring [223] = [34, 223, 34]"
proof -
  let ?path = "asc ''data/data.json''"
  let ?T = "first_pass_events @
               [Get (catalog_url 2), WriteJson ?path (data_dict [renault_record])]"
  have sv: "save_json_data (data_dict [eszett_record]) ?path =
       ([WriteJson ?path (data_dict [eszett_record])], Inr ())"
    by (simp add: save_json_data_def dumped_eszett_record)
  have pn: "path_to_dir after_first_pass @ asc ''/data.json'' = ?path"
    "data_ads after_first_pass = [renault_record]"
    by (simp_all add: after_first_pass_def)
  note rt = data_json_round_trip
    [of "[eszett_record]" ?path "[WriteJson ?path (data_dict [eszett_record])]"
        one_listing_world "snd (init (asc ''data''))" ?T after_first_pass
        eszett_bytes "[eszett_record]" "[223]"]
  from rt sv dumped_eszett_record
  have a: "file_bytes [WriteJson ?path (data_dict [eszett_record])] ?path = Some eszett_bytes"
    and b: "load_bytes eszett_bytes = Some (data_dict [eszett_record])"
    by auto
  from rt process_one_listing_world
  have c: "\<exists>bytes. file_bytes ?T (path_to_dir after_first_pass @ asc ''/data.json'') = Some bytes \<and>
                load_bytes bytes = Some (data_dict (data_ads after_first_pass))"
    by blast
  from rt have d: "encode_basestring [223] = [34, 223, 34]"
    by simp
  from sv a b c d process_one_listing_world show ?thesis
    unfolding pn by blast
qed

end
